theory Spec2Isabelle
  imports Complex_Main "HOL-Library.Product_Lexorder"
begin

section \<open>Python strings\<close>

text \<open>
  A Python \<^verbatim>\<open>str\<close> is a sequence of Unicode code points. The impact analyzer handles
  text beyond Latin-1 (the severity markers are emoji), so a string is modelled as the
  list of its code points; \<open>u\<close> turns an ASCII literal into such a list.
\<close>

type_synonym ustr = "nat list"

definition u :: "string \<Rightarrow> ustr" where
  "u s = map of_char s"

text \<open>\<^verbatim>\<open>s.startswith(p)\<close>\<close>

fun startswith :: "ustr \<Rightarrow> ustr \<Rightarrow> bool" where
  "startswith s [] = True"
| "startswith [] (p # ps) = False"
| "startswith (c # cs) (p # ps) = (c = p \<and> startswith cs ps)"

text \<open>\<^verbatim>\<open>sep.join(parts)\<close>\<close>

fun join :: "ustr \<Rightarrow> ustr list \<Rightarrow> ustr" where
  "join sep [] = []"
| "join sep [x] = x"
| "join sep (x # y # ys) = x @ sep @ join sep (y # ys)"

text \<open>
  \<^verbatim>\<open>s.splitlines()\<close>: the line boundaries of \<^verbatim>\<open>str.splitlines\<close> are LF, VT, FF, CR
  (CR LF counting as one), FS, GS, RS, NEL, LS and PS; the boundaries are dropped and a
  final boundary does not open an empty last line.
\<close>

definition is_linebreak :: "nat \<Rightarrow> bool" where
  "is_linebreak c = (c \<in> {10, 11, 12, 13, 28, 29, 30, 133, 8232, 8233})"

fun splitlines_from :: "ustr \<Rightarrow> ustr \<Rightarrow> ustr list" where
  "splitlines_from cur [] = (if cur = [] then [] else [cur])"
| "splitlines_from cur (c # cs) =
     (if c = 13 \<and> cs \<noteq> [] \<and> hd cs = 10 then cur # splitlines_from [] (tl cs)
      else if is_linebreak c then cur # splitlines_from [] cs
      else splitlines_from (cur @ [c]) cs)"

definition splitlines :: "ustr \<Rightarrow> ustr list" where
  "splitlines s = splitlines_from [] s"

text \<open>\<^verbatim>\<open>s.count('\n')\<close>\<close>

definition count_newlines :: "ustr \<Rightarrow> nat" where
  "count_newlines s = length (filter (\<lambda>c. c = 10) s)"

text \<open>
  \<^verbatim>\<open>s.strip()\<close> removes the characters for which \<^verbatim>\<open>str.isspace\<close> holds from both ends.
\<close>

definition py_isspace :: "nat \<Rightarrow> bool" where
  "py_isspace c = (c \<in> {9, 10, 11, 12, 13, 28, 29, 30, 31, 32, 133, 160, 5760,
      8192, 8193, 8194, 8195, 8196, 8197, 8198, 8199, 8200, 8201, 8202,
      8232, 8233, 8239, 8287, 12288})"

definition strip :: "ustr \<Rightarrow> ustr" where
  "strip s = rev (dropWhile py_isspace (rev (dropWhile py_isspace s)))"

text \<open>\<^verbatim>\<open>str(n)\<close> for a non-negative integer: its decimal digits.\<close>

fun str_of_nat :: "nat \<Rightarrow> ustr" where
  "str_of_nat n = (if n < 10 then [48 + n] else str_of_nat (n div 10) @ [48 + n mod 10])"

declare str_of_nat.simps [simp del]

section \<open>The prompt sanitizer\<close>

text \<open>
  \<^verbatim>\<open>
  MAX_CHARS = 10000
  def clean_and_truncate_prompt(text, max_chars=MAX_CHARS):
      text = re.sub(r'<[^>]+>', '', text)
      text = re.sub(r'[^\x00-\x7F]+', '', text)
      return text[:max_chars]
  \<close>
  The first substitution scans from the left. At a \<^verbatim>\<open><\<close> the class \<^verbatim>\<open>[^>]+\<close> takes the
  longest run of characters other than \<^verbatim>\<open>>\<close> (line breaks included); the match succeeds
  when that run is not empty and a \<^verbatim>\<open>>\<close> follows it, and the scan resumes behind the
  \<^verbatim>\<open>>\<close>. Backtracking into a shorter run cannot help, as no character of the run is a
  \<^verbatim>\<open>>\<close>. \<open>match_tag cs\<close> is the text behind the tag that opens just before \<open>cs\<close>.
\<close>

definition MAX_CHARS :: nat where
  "MAX_CHARS = 10000"

definition match_tag :: "ustr \<Rightarrow> ustr option" where
  "match_tag cs =
     (if takeWhile (\<lambda>c. c \<noteq> 62) cs \<noteq> [] \<and> dropWhile (\<lambda>c. c \<noteq> 62) cs \<noteq> []
      then Some (tl (dropWhile (\<lambda>c. c \<noteq> 62) cs)) else None)"

lemma match_tag_shorter [termination_simp]:
  "match_tag cs = Some r \<Longrightarrow> length r < Suc (length cs)"
proof -
  assume "match_tag cs = Some r"
  then have "r = tl (dropWhile (\<lambda>c. c \<noteq> 62) cs)"
    by (simp add: match_tag_def split: if_splits)
  moreover have "length (dropWhile (\<lambda>c. c \<noteq> 62) cs) \<le> length cs"
    by (rule length_dropWhile_le)
  ultimately show ?thesis by simp
qed

function strip_tags :: "ustr \<Rightarrow> ustr" where
  "strip_tags [] = []"
| "strip_tags (c # cs) =
     (if c = 60 then
        (case match_tag cs of Some r \<Rightarrow> strip_tags r | None \<Rightarrow> c # strip_tags cs)
      else c # strip_tags cs)"
  by pat_completeness auto
termination
  by (relation "measure length") (auto simp: match_tag_shorter)

definition strip_non_ascii :: "ustr \<Rightarrow> ustr" where
  "strip_non_ascii s = filter (\<lambda>c. c \<le> 127) s"

definition clean_and_truncate_prompt :: "ustr \<Rightarrow> ustr" where
  "clean_and_truncate_prompt text = take MAX_CHARS (strip_non_ascii (strip_tags text))"

text \<open>
  A string contains a markup tag when the pattern \<^verbatim>\<open><[^>]+>\<close> matches somewhere in it.
\<close>

fun contains_tag :: "ustr \<Rightarrow> bool" where
  "contains_tag [] = False"
| "contains_tag (c # cs) = ((c = 60 \<and> match_tag cs \<noteq> None) \<or> contains_tag cs)"

text \<open>The printable 7-bit characters are the codes 32 to 126.\<close>

definition printable7 :: "nat \<Rightarrow> bool" where
  "printable7 c = (32 \<le> c \<and> c \<le> 126)"

section \<open>Severity tagging of the risk text\<close>

text \<open>
  \<^verbatim>\<open>
  re.sub(r'\b(Low|Medium|High)\b',
         lambda m: {'Low': '<green circle> Low', 'Medium': '<yellow circle> Medium',
                    'High': '<red circle> High'}[m.group(0)],
         raw_risk)
  \<close>
  The markers are U+1F7E2, U+1F7E1 and U+1F534, each followed by a space. For a \<^verbatim>\<open>str\<close>
  pattern \<^verbatim>\<open>\b\<close> is the boundary between a word character and a non-word character or
  an end of the text; a word character is an alphanumeric character or the underscore.
  Which code points above 127 are alphanumeric is a table of the Python runtime: it is the
  parameter \<open>alnum\<close>. The scan tries the pattern at each position from the left, the
  alternatives in their order, and resumes behind a match.
\<close>

definition ascii_word :: "nat \<Rightarrow> bool" where
  "ascii_word c = ((48 \<le> c \<and> c \<le> 57) \<or> (65 \<le> c \<and> c \<le> 90) \<or> (97 \<le> c \<and> c \<le> 122) \<or> c = 95)"

definition is_word :: "(nat \<Rightarrow> bool) \<Rightarrow> nat \<Rightarrow> bool" where
  "is_word alnum c = (if c \<le> 127 then ascii_word c else alnum c)"

definition word_boundary :: "(nat \<Rightarrow> bool) \<Rightarrow> nat option \<Rightarrow> ustr \<Rightarrow> bool" where
  "word_boundary alnum prev s =
     ((case prev of None \<Rightarrow> False | Some p \<Rightarrow> is_word alnum p)
      \<noteq> (case s of [] \<Rightarrow> False | c # _ \<Rightarrow> is_word alnum c))"

definition severity_tokens :: "ustr list" where
  "severity_tokens = [u ''Low'', u ''Medium'', u ''High'']"

fun try_tokens :: "(nat \<Rightarrow> bool) \<Rightarrow> ustr \<Rightarrow> ustr list \<Rightarrow> ustr option" where
  "try_tokens alnum s [] = None"
| "try_tokens alnum s (t # ts) =
     (if startswith s t \<and> word_boundary alnum (Some (last t)) (drop (length t) s)
      then Some t else try_tokens alnum s ts)"

definition match_severity :: "(nat \<Rightarrow> bool) \<Rightarrow> nat option \<Rightarrow> ustr \<Rightarrow> ustr option" where
  "match_severity alnum prev s =
     (if word_boundary alnum prev s then try_tokens alnum s severity_tokens else None)"

definition severity_tag :: "ustr \<Rightarrow> ustr" where
  "severity_tag tok =
     (if tok = u ''Low'' then [128994, 32] @ u ''Low''
      else if tok = u ''Medium'' then [128993, 32] @ u ''Medium''
      else [128308, 32] @ u ''High'')"

lemma try_tokens_mem: "try_tokens alnum s ts = Some t \<Longrightarrow> t \<in> set ts"
  by (induction ts) (auto split: if_splits)

lemma match_severity_length [termination_simp]:
  "match_severity alnum prev s = Some t \<Longrightarrow> 0 < length t"
  by (auto simp: match_severity_def severity_tokens_def u_def split: if_splits dest!: try_tokens_mem)

function tag_from :: "(nat \<Rightarrow> bool) \<Rightarrow> nat option \<Rightarrow> ustr \<Rightarrow> ustr" where
  "tag_from alnum prev [] = []"
| "tag_from alnum prev (c # cs) =
     (case match_severity alnum prev (c # cs) of
        Some t \<Rightarrow> severity_tag t @ tag_from alnum (Some (last t)) (drop (length t) (c # cs))
      | None \<Rightarrow> c # tag_from alnum (Some c) cs)"
  by pat_completeness auto
termination
  by (relation "measure (\<lambda>(a, p, s). length s)") (auto dest: match_severity_length)

definition tag_severity :: "(nat \<Rightarrow> bool) \<Rightarrow> ustr \<Rightarrow> ustr" where
  "tag_severity alnum text = tag_from alnum None text"

text \<open>
  The same operation in the words of the specification: each position where one of the
  three tokens stands as a whole word (no word character before it, none behind it) gets
  the token's marker in front, and nothing else changes. \<open>strip_markers\<close> takes the
  markers out again.
\<close>

definition word_before :: "(nat \<Rightarrow> bool) \<Rightarrow> nat option \<Rightarrow> bool" where
  "word_before alnum prev = (case prev of None \<Rightarrow> False | Some p \<Rightarrow> is_word alnum p)"

definition word_after :: "(nat \<Rightarrow> bool) \<Rightarrow> ustr \<Rightarrow> bool" where
  "word_after alnum s = (case s of [] \<Rightarrow> False | c # _ \<Rightarrow> is_word alnum c)"

definition whole_word_here :: "(nat \<Rightarrow> bool) \<Rightarrow> nat option \<Rightarrow> ustr \<Rightarrow> ustr \<Rightarrow> bool" where
  "whole_word_here alnum prev s t =
     (startswith s t \<and> \<not> word_before alnum prev \<and> \<not> word_after alnum (drop (length t) s))"

definition severity_marker :: "(nat \<Rightarrow> bool) \<Rightarrow> nat option \<Rightarrow> ustr \<Rightarrow> ustr" where
  "severity_marker alnum prev s =
     (if whole_word_here alnum prev s (u ''Low'') then [128994, 32]
      else if whole_word_here alnum prev s (u ''Medium'') then [128993, 32]
      else if whole_word_here alnum prev s (u ''High'') then [128308, 32]
      else [])"

fun mark_from :: "(nat \<Rightarrow> bool) \<Rightarrow> nat option \<Rightarrow> ustr \<Rightarrow> ustr" where
  "mark_from alnum prev [] = []"
| "mark_from alnum prev (c # cs) =
     severity_marker alnum prev (c # cs) @ c # mark_from alnum (Some c) cs"

definition mark_whole_words :: "(nat \<Rightarrow> bool) \<Rightarrow> ustr \<Rightarrow> ustr" where
  "mark_whole_words alnum text = mark_from alnum None text"

definition is_marker :: "nat \<Rightarrow> bool" where
  "is_marker c = (c = 128994 \<or> c = 128993 \<or> c = 128308)"

fun strip_markers :: "ustr \<Rightarrow> ustr" where
  "strip_markers [] = []"
| "strip_markers [c] = [c]"
| "strip_markers (c # d # cs) =
     (if is_marker c \<and> d = 32 then strip_markers cs else c # strip_markers (d # cs))"

section \<open>The diff engine: \<^verbatim>\<open>difflib.unified_diff\<close>\<close>

text \<open>
  The analyzer calls \<^verbatim>\<open>difflib.unified_diff(old_lines, new_lines, fromfile=..., tofile=...,
  lineterm='')\<close> of the Python standard library. The model follows
  \<^verbatim>\<open>difflib.SequenceMatcher(None, a, b)\<close> step by step: \<^verbatim>\<open>__chain_b\<close>,
  \<^verbatim>\<open>find_longest_match\<close>, \<^verbatim>\<open>get_matching_blocks\<close>, \<^verbatim>\<open>get_opcodes\<close>,
  \<^verbatim>\<open>get_grouped_opcodes\<close> and the formatting loop of \<^verbatim>\<open>unified_diff\<close>.

  \<^verbatim>\<open>__chain_b\<close> builds \<^verbatim>\<open>b2j\<close>, the ascending list of positions of every element of
  \<open>b\<close>. No junk predicate is given, so the junk set is empty; with \<^verbatim>\<open>autojunk\<close> on and at
  least 200 elements, every element that occurs more than \<^verbatim>\<open>n // 100 + 1\<close> times is
  popular and loses its entry. \<open>b2j b x\<close> is \<^verbatim>\<open>b2j.get(x, [])\<close>.
\<close>

datatype tag = Replace | Delete | Insert | Equal

type_synonym opcode = "tag \<times> nat \<times> nat \<times> nat \<times> nat"
type_synonym match = "nat \<times> nat \<times> nat"

definition indices_of :: "'a list \<Rightarrow> 'a \<Rightarrow> nat list" where
  "indices_of b x = filter (\<lambda>j. b ! j = x) [0..<length b]"

definition popular :: "'a list \<Rightarrow> 'a \<Rightarrow> bool" where
  "popular b x = (200 \<le> length b \<and> length b div 100 + 1 < length (indices_of b x))"

definition b2j :: "'a list \<Rightarrow> 'a \<Rightarrow> nat list" where
  "b2j b x = (if popular b x then [] else indices_of b x)"

text \<open>
  \<^verbatim>\<open>find_longest_match(alo, ahi, blo, bhi)\<close>. The dictionary \<^verbatim>\<open>j2len\<close> holds, for the
  row before, the length of the match that ends at each column; \<open>j2lenget j2len j\<close> is
  \<^verbatim>\<open>j2len.get(j-1, 0)\<close> (the key \<^verbatim>\<open>-1\<close> is never stored). \<open>scan_row\<close> is the inner loop
  over \<^verbatim>\<open>b2j.get(a[i], nothing)\<close> with its \<^verbatim>\<open>continue\<close> and \<^verbatim>\<open>break\<close>, \<open>scan_rows\<close> the
  loop over \<^verbatim>\<open>range(alo, ahi)\<close>. The best start is \<^verbatim>\<open>i-k+1\<close>, written \<open>i + 1 - k\<close>: a
  match that ends at row \<open>i\<close> has at most \<open>i + 1\<close> elements. The callers pass
  \<open>ahi \<le> length a\<close> and \<open>bhi \<le> length b\<close>, so every index read is in range.
\<close>

definition j2lenget :: "(nat \<rightharpoonup> nat) \<Rightarrow> nat \<Rightarrow> nat" where
  "j2lenget j2len j = (if j = 0 then 0 else case j2len (j - 1) of None \<Rightarrow> 0 | Some k \<Rightarrow> k)"

fun scan_row :: "nat \<Rightarrow> nat \<Rightarrow> nat \<Rightarrow> (nat \<rightharpoonup> nat) \<Rightarrow> nat list
    \<Rightarrow> (nat \<rightharpoonup> nat) \<times> match \<Rightarrow> (nat \<rightharpoonup> nat) \<times> match" where
  "scan_row i blo bhi j2len [] st = st"
| "scan_row i blo bhi j2len (j # js) (newj2len, besti, bestj, bestsize) =
     (if j < blo then scan_row i blo bhi j2len js (newj2len, besti, bestj, bestsize)
      else if bhi \<le> j then (newj2len, besti, bestj, bestsize)
      else let k = j2lenget j2len j + 1 in
        if bestsize < k
        then scan_row i blo bhi j2len js (newj2len(j \<mapsto> k), i + 1 - k, j + 1 - k, k)
        else scan_row i blo bhi j2len js (newj2len(j \<mapsto> k), besti, bestj, bestsize))"

fun scan_rows :: "'a list \<Rightarrow> 'a list \<Rightarrow> nat \<Rightarrow> nat \<Rightarrow> nat list
    \<Rightarrow> (nat \<rightharpoonup> nat) \<times> match \<Rightarrow> (nat \<rightharpoonup> nat) \<times> match" where
  "scan_rows a b blo bhi [] st = st"
| "scan_rows a b blo bhi (i # rows) (j2len, best) =
     scan_rows a b blo bhi rows (scan_row i blo bhi j2len (b2j b (a ! i)) (Map.empty, best))"

text \<open>
  The two \<^verbatim>\<open>while\<close> loops that extend the best match over equal elements on each side.
  Their test \<^verbatim>\<open>not isbjunk(...)\<close> is always true and the two loops after them, which
  need \<^verbatim>\<open>isbjunk(...)\<close>, never run, as the junk set is empty.
\<close>

function extend_left :: "'a list \<Rightarrow> 'a list \<Rightarrow> nat \<Rightarrow> nat \<Rightarrow> match \<Rightarrow> match" where
  "extend_left a b alo blo (besti, bestj, bestsize) =
     (if alo < besti \<and> blo < bestj \<and> a ! (besti - 1) = b ! (bestj - 1)
      then extend_left a b alo blo (besti - 1, bestj - 1, bestsize + 1)
      else (besti, bestj, bestsize))"
  by pat_completeness auto
termination
  by (relation "measure (\<lambda>(a, b, alo, blo, besti, bestj, bestsize). besti)") auto

function extend_right :: "'a list \<Rightarrow> 'a list \<Rightarrow> nat \<Rightarrow> nat \<Rightarrow> match \<Rightarrow> match" where
  "extend_right a b ahi bhi (besti, bestj, bestsize) =
     (if besti + bestsize < ahi \<and> bestj + bestsize < bhi
         \<and> a ! (besti + bestsize) = b ! (bestj + bestsize)
      then extend_right a b ahi bhi (besti, bestj, bestsize + 1)
      else (besti, bestj, bestsize))"
  by pat_completeness auto
termination
  by (relation "measure (\<lambda>(a, b, ahi, bhi, besti, bestj, bestsize). ahi - (besti + bestsize))") auto

declare extend_left.simps [simp del] extend_right.simps [simp del]

definition find_longest_match :: "'a list \<Rightarrow> 'a list \<Rightarrow> nat \<Rightarrow> nat \<Rightarrow> nat \<Rightarrow> nat \<Rightarrow> match" where
  "find_longest_match a b alo ahi blo bhi =
     extend_right a b ahi bhi (extend_left a b alo blo
       (snd (scan_rows a b blo bhi [alo..<ahi] (Map.empty, (alo, blo, 0)))))"

text \<open>
  The match found lies inside the window: the fact that makes the work list of
  \<^verbatim>\<open>get_matching_blocks\<close> shrink.
\<close>

definition vals_le :: "(nat \<rightharpoonup> nat) \<Rightarrow> nat \<Rightarrow> bool" where
  "vals_le m n = (\<forall>j v. m j = Some v \<longrightarrow> v \<le> n)"

fun best_in :: "nat \<Rightarrow> nat \<Rightarrow> match \<Rightarrow> bool" where
  "best_in alo ahi (besti, bestj, bestsize) =
     (alo \<le> besti \<and> (if bestsize = 0 then besti = alo else besti + bestsize \<le> ahi))"

lemma j2lenget_le: "vals_le m n \<Longrightarrow> j2lenget m j \<le> n"
  by (auto simp: vals_le_def j2lenget_def split: option.splits)

lemma scan_row_bounds:
  assumes "vals_le j2len (i - alo)" "alo \<le> i" "i < ahi"
  shows "vals_le (fst st) (i + 1 - alo) \<Longrightarrow> best_in alo ahi (snd st) \<Longrightarrow>
    vals_le (fst (scan_row i blo bhi j2len js st)) (i + 1 - alo)
    \<and> best_in alo ahi (snd (scan_row i blo bhi j2len js st))"
proof (induction js arbitrary: st)
  case Nil
  then show ?case by simp
next
  case (Cons j js)
  obtain new bi bj bs where st: "st = (new, bi, bj, bs)" by (cases st) auto
  let ?k = "j2lenget j2len j + 1"
  have k: "?k \<le> i + 1 - alo" using j2lenget_le [OF assms(1), of j] assms(2) by simp
  have new': "vals_le (new(j \<mapsto> ?k)) (i + 1 - alo)"
    using Cons.prems(1) k by (auto simp: vals_le_def st)
  have b': "best_in alo ahi (i + 1 - ?k, j + 1 - ?k, ?k)"
    using k assms(2,3) by auto
  show ?case
  proof (cases "j < blo \<or> bhi \<le> j")
    case True
    with Cons show ?thesis by (auto simp: st)
  next
    case False
    define st' where "st' = (if bs < ?k then (new(j \<mapsto> ?k), i + 1 - ?k, j + 1 - ?k, ?k)
       else (new(j \<mapsto> ?k), bi, bj, bs))"
    have "vals_le (fst st') (i + 1 - alo)" using new' by (simp add: st'_def)
    moreover have "best_in alo ahi (snd st')"
      using b' Cons.prems(2) by (auto simp: st'_def st)
    ultimately have "vals_le (fst (scan_row i blo bhi j2len js st')) (i + 1 - alo)
      \<and> best_in alo ahi (snd (scan_row i blo bhi j2len js st'))"
      by (rule Cons.IH)
    moreover have "scan_row i blo bhi j2len (j # js) st = scan_row i blo bhi j2len js st'"
      using False by (simp add: st st'_def Let_def)
    ultimately show ?thesis by simp
  qed
qed

lemma scan_rows_bounds:
  "alo \<le> i0 \<Longrightarrow> vals_le (fst st) (i0 - alo) \<Longrightarrow> best_in alo ahi (snd st) \<Longrightarrow>
   best_in alo ahi (snd (scan_rows a b blo bhi [i0..<ahi] st))"
proof (induction "ahi - i0" arbitrary: i0 st)
  case 0
  then show ?case by simp
next
  case (Suc n)
  then have lt: "i0 < ahi" by simp
  obtain j2len best where st: "st = (j2len, best)" by (cases st) auto
  let ?st' = "scan_row i0 blo bhi j2len (b2j b (a ! i0)) (Map.empty, best)"
  have "vals_le (fst ?st') (i0 + 1 - alo) \<and> best_in alo ahi (snd ?st')"
    using scan_row_bounds [of j2len i0 alo ahi "(Map.empty, best)" blo bhi "b2j b (a ! i0)"]
      Suc.prems lt by (simp add: st vals_le_def)
  moreover have "n = ahi - Suc i0" using Suc.hyps(2) by simp
  ultimately have "best_in alo ahi (snd (scan_rows a b blo bhi [Suc i0..<ahi] ?st'))"
    using Suc.hyps(1) [of "Suc i0" ?st'] Suc.prems(1) by simp
  then show ?case using lt by (simp add: upt_conv_Cons st)
qed

lemma extend_left_bounds:
  "best_in alo ahi m \<Longrightarrow> best_in alo ahi (extend_left a b alo blo m)"
proof (induction a b alo blo m rule: extend_left.induct)
  case (1 a b alo blo besti bestj bestsize)
  show ?case
  proof (cases "alo < besti \<and> blo < bestj \<and> a ! (besti - 1) = b ! (bestj - 1)")
    case True
    with 1 show ?thesis by (subst extend_left.simps) (auto split: if_splits)
  next
    case False
    with 1 show ?thesis by (subst extend_left.simps) (auto split: if_splits)
  qed
qed

lemma extend_right_bounds:
  "best_in alo ahi m \<Longrightarrow> best_in alo ahi (extend_right a b ahi bhi m)"
proof (induction a b ahi bhi m rule: extend_right.induct)
  case (1 a b ahi bhi besti bestj bestsize)
  show ?case
  proof (cases "besti + bestsize < ahi \<and> bestj + bestsize < bhi
         \<and> a ! (besti + bestsize) = b ! (bestj + bestsize)")
    case True
    with 1 show ?thesis by (subst extend_right.simps) (auto split: if_splits)
  next
    case False
    with 1 show ?thesis by (subst extend_right.simps) (auto split: if_splits)
  qed
qed

lemma find_longest_match_bounds:
  "best_in alo ahi (find_longest_match a b alo ahi blo bhi)"
  unfolding find_longest_match_def
  by (intro extend_right_bounds extend_left_bounds scan_rows_bounds)
     (simp_all add: vals_le_def)

lemma find_longest_match_range:
  assumes "find_longest_match a b alo ahi blo bhi = (i, j, k)" "k \<noteq> 0"
  shows "alo \<le> i" "i + k \<le> ahi"
  using find_longest_match_bounds [of alo ahi a b blo bhi] assms by auto

lemma find_longest_match_range':
  "(i, j, k) = find_longest_match a b alo ahi blo bhi \<Longrightarrow> k \<noteq> 0 \<Longrightarrow> alo \<le> i \<and> i + k \<le> ahi"
  using find_longest_match_bounds [of alo ahi a b blo bhi] by (cases "find_longest_match a b alo ahi blo bhi") auto

text \<open>
  \<^verbatim>\<open>get_matching_blocks\<close>: the work list \<^verbatim>\<open>queue\<close> is a stack (\<^verbatim>\<open>pop()\<close> takes the last
  element appended), kept here with its top at the head; the blocks found are sorted and
  adjacent ones merged, and the sentinel \<^verbatim>\<open>(la, lb, 0)\<close> closes the list.
\<close>

function match_queue :: "'a list \<Rightarrow> 'a list \<Rightarrow> (nat \<times> nat \<times> nat \<times> nat) list
    \<Rightarrow> match list \<Rightarrow> match list" where
  "match_queue a b [] matching_blocks = matching_blocks"
| "match_queue a b ((alo, ahi, blo, bhi) # queue) matching_blocks =
     (case find_longest_match a b alo ahi blo bhi of (i, j, k) \<Rightarrow>
        if k = 0 then match_queue a b queue matching_blocks
        else match_queue a b
          ((if i + k < ahi \<and> j + k < bhi then [(i + k, ahi, j + k, bhi)] else [])
           @ (if alo < i \<and> blo < j then [(alo, i, blo, j)] else []) @ queue)
          (matching_blocks @ [(i, j, k)]))"
  by pat_completeness auto
termination
proof (relation "measure (\<lambda>(a, b, queue, blocks).
    sum_list (map (\<lambda>(alo, ahi, blo, bhi). 2 * (ahi - alo) + 1) queue))", goal_cases)
  case 1
  show ?case by simp
next
  case 2
  then show ?case by simp
next
  case prems: (3 a b alo ahi blo bhi queue blocks i y j k)
  from prems(1,2) have "(i, j, k) = find_longest_match a b alo ahi blo bhi" by simp
  from find_longest_match_range' [OF this prems(3)] prems(3) show ?case by auto
qed

fun collapse :: "match \<Rightarrow> match list \<Rightarrow> match list" where
  "collapse (i1, j1, k1) [] = (if k1 \<noteq> 0 then [(i1, j1, k1)] else [])"
| "collapse (i1, j1, k1) ((i2, j2, k2) # ms) =
     (if i1 + k1 = i2 \<and> j1 + k1 = j2 then collapse (i1, j1, k1 + k2) ms
      else (if k1 \<noteq> 0 then [(i1, j1, k1)] else []) @ collapse (i2, j2, k2) ms)"

definition get_matching_blocks :: "'a list \<Rightarrow> 'a list \<Rightarrow> match list" where
  "get_matching_blocks a b =
     collapse (0, 0, 0) (sort (match_queue a b [(0, length a, 0, length b)] []))
     @ [(length a, length b, 0)]"

text \<open>\<^verbatim>\<open>get_opcodes\<close> and \<^verbatim>\<open>get_grouped_opcodes(n)\<close>.\<close>

fun opcodes_from :: "nat \<Rightarrow> nat \<Rightarrow> match list \<Rightarrow> opcode list" where
  "opcodes_from i j [] = []"
| "opcodes_from i j ((ai, bj, sz) # ms) =
     (if i < ai \<and> j < bj then [(Replace, i, ai, j, bj)]
      else if i < ai then [(Delete, i, ai, j, bj)]
      else if j < bj then [(Insert, i, ai, j, bj)]
      else [])
     @ (if sz \<noteq> 0 then [(Equal, ai, ai + sz, bj, bj + sz)] else [])
     @ opcodes_from (ai + sz) (bj + sz) ms"

definition get_opcodes :: "'a list \<Rightarrow> 'a list \<Rightarrow> opcode list" where
  "get_opcodes a b = opcodes_from 0 0 (get_matching_blocks a b)"

definition fix_first :: "nat \<Rightarrow> opcode list \<Rightarrow> opcode list" where
  "fix_first n codes =
     (case codes of
        (Equal, i1, i2, j1, j2) # rest \<Rightarrow> (Equal, max i1 (i2 - n), i2, max j1 (j2 - n), j2) # rest
      | _ \<Rightarrow> codes)"

definition fix_last :: "nat \<Rightarrow> opcode list \<Rightarrow> opcode list" where
  "fix_last n codes =
     (if codes = [] then codes
      else case last codes of
        (Equal, i1, i2, j1, j2) \<Rightarrow>
          butlast codes @ [(Equal, i1, min i2 (i1 + n), j1, min j2 (j1 + n))]
      | _ \<Rightarrow> codes)"

fun group_codes :: "nat \<Rightarrow> opcode list \<Rightarrow> opcode list \<Rightarrow> opcode list list" where
  "group_codes n grp [] =
     (if grp \<noteq> [] \<and> \<not> (length grp = 1 \<and> fst (hd grp) = Equal) then [grp] else [])"
| "group_codes n grp ((tag, i1, i2, j1, j2) # codes) =
     (if tag = Equal \<and> n + n < i2 - i1
      then (grp @ [(tag, i1, min i2 (i1 + n), j1, min j2 (j1 + n))])
           # group_codes n [(tag, max i1 (i2 - n), i2, max j1 (j2 - n), j2)] codes
      else group_codes n (grp @ [(tag, i1, i2, j1, j2)]) codes)"

definition get_grouped_opcodes :: "nat \<Rightarrow> 'a list \<Rightarrow> 'a list \<Rightarrow> opcode list list" where
  "get_grouped_opcodes n a b =
     (let codes = (if get_opcodes a b = [] then [(Equal, 0, 1, 0, 1)] else get_opcodes a b)
      in group_codes n [] (fix_last n (fix_first n codes)))"

text \<open>
  \<^verbatim>\<open>unified_diff\<close> with empty file dates and \<^verbatim>\<open>lineterm=''\<close>: the two header lines before
  the first hunk, then for every group its \<^verbatim>\<open>@@\<close> line and its lines, prefixed by a
  space, \<^verbatim>\<open>-\<close> or \<^verbatim>\<open>+\<close>. \<open>slice xs lo hi\<close> is \<^verbatim>\<open>xs[lo:hi]\<close>.
\<close>

definition format_range_unified :: "nat \<Rightarrow> nat \<Rightarrow> ustr" where
  "format_range_unified start stop =
     (let beginning = start + 1; len = stop - start in
      if len = 1 then str_of_nat beginning
      else if len = 0 then str_of_nat (beginning - 1) @ u '','' @ str_of_nat len
      else str_of_nat beginning @ u '','' @ str_of_nat len)"

definition slice :: "'a list \<Rightarrow> nat \<Rightarrow> nat \<Rightarrow> 'a list" where
  "slice xs lo hi = take (hi - lo) (drop lo xs)"

fun opcode_lines :: "ustr list \<Rightarrow> ustr list \<Rightarrow> opcode \<Rightarrow> ustr list" where
  "opcode_lines a b (tag, i1, i2, j1, j2) =
     (if tag = Equal then map (\<lambda>line. u '' '' @ line) (slice a i1 i2)
      else (if tag = Replace \<or> tag = Delete
            then map (\<lambda>line. u ''-'' @ line) (slice a i1 i2) else [])
         @ (if tag = Replace \<or> tag = Insert
            then map (\<lambda>line. u ''+'' @ line) (slice b j1 j2) else []))"

definition hunk_lines :: "ustr list \<Rightarrow> ustr list \<Rightarrow> opcode list \<Rightarrow> ustr list" where
  "hunk_lines a b grp =
     (case (hd grp, last grp) of ((t1, f1, f2, f3, f4), (t2, l1, l2, l3, l4)) \<Rightarrow>
        (u ''@@ -'' @ format_range_unified f1 l2 @ u '' +'' @ format_range_unified f3 l4
           @ u '' @@'')
        # concat (map (opcode_lines a b) grp))"

definition unified_diff :: "ustr list \<Rightarrow> ustr list \<Rightarrow> ustr \<Rightarrow> ustr \<Rightarrow> ustr list" where
  "unified_diff a b fromfile tofile =
     (case get_grouped_opcodes 3 a b of
        [] \<Rightarrow> []
      | groups \<Rightarrow> (u ''--- '' @ fromfile) # (u ''+++ '' @ tofile)
           # concat (map (hunk_lines a b) groups))"

section \<open>Change metrics\<close>

text \<open>
  \<^verbatim>\<open>
  old_lines = old_code.splitlines()
  new_lines = new_code.splitlines()
  diff = difflib.unified_diff(old_lines, new_lines, fromfile=old_page_title,
                              tofile=new_page_title, lineterm='')
  full_diff_text = '\n'.join(diff)
  safe_diff = clean_and_truncate_prompt(full_diff_text)
  lines_added = sum(1 for l in full_diff_text.splitlines()
                    if l.startswith('+') and not l.startswith('+++'))
  lines_removed = sum(1 for l in full_diff_text.splitlines()
                      if l.startswith('-') and not l.startswith('---'))
  total_lines = len(old_lines) or 1
  percent_change = round(((lines_added + lines_removed) / total_lines) * 100, 2)
  code_blocks_changed = abs(old_code.count('\n') // 5 - new_code.count('\n') // 5)
  \<close>
  The percentage is a Python \<^verbatim>\<open>float\<close>. Its arithmetic is not part of the program: the
  division of two integers, the product with an integer, \<^verbatim>\<open>round(x, n)\<close> and the
  conversion to text are the parameter \<open>ops\<close>, and the model applies them in the order of
  the source.
\<close>

record 'f float_ops =
  truediv :: "nat \<Rightarrow> nat \<Rightarrow> 'f"
  times_int :: "'f \<Rightarrow> nat \<Rightarrow> 'f"
  round_ndigits :: "'f \<Rightarrow> nat \<Rightarrow> 'f"
  float_str :: "'f \<Rightarrow> ustr"

record 'f metrics =
  lines_added :: nat
  lines_removed :: nat
  percent_change :: 'f
  code_blocks_changed :: nat

definition full_diff_text :: "ustr \<Rightarrow> ustr \<Rightarrow> ustr \<Rightarrow> ustr \<Rightarrow> ustr" where
  "full_diff_text old_page_title new_page_title old_code new_code =
     join (u ''\<newline>'')
       (unified_diff (splitlines old_code) (splitlines new_code) old_page_title new_page_title)"

definition count_added :: "ustr \<Rightarrow> nat" where
  "count_added text =
     length (filter (\<lambda>l. startswith l (u ''+'') \<and> \<not> startswith l (u ''+++'')) (splitlines text))"

definition count_removed :: "ustr \<Rightarrow> nat" where
  "count_removed text =
     length (filter (\<lambda>l. startswith l (u ''-'') \<and> \<not> startswith l (u ''---'')) (splitlines text))"

definition compute_metrics :: "'f float_ops \<Rightarrow> ustr \<Rightarrow> ustr \<Rightarrow> ustr \<Rightarrow> ustr \<Rightarrow> 'f metrics" where
  "compute_metrics ops old_page_title new_page_title old_code new_code =
     (let old_lines = splitlines old_code;
          diff_text = full_diff_text old_page_title new_page_title old_code new_code;
          added = count_added diff_text;
          removed = count_removed diff_text;
          total_lines = (if length old_lines = 0 then 1 else length old_lines)
      in \<lparr> lines_added = added,
           lines_removed = removed,
           percent_change =
             round_ndigits ops (times_int ops (truediv ops (added + removed) total_lines) 100) 2,
           code_blocks_changed =
             nat \<bar>int (count_newlines old_code div 5) - int (count_newlines new_code div 5)\<bar> \<rparr>)"

text \<open>
  An instance for running the model on concrete texts: exact rational arithmetic, with
  rounding to the nearest multiple of \<open>10\<^sup>-\<^sup>n\<close>, ties to the even one. It is not the
  arithmetic of Python: binary floating point gives the same value where quotient and
  product are exact, as in \<^verbatim>\<open>3 / 3 * 100\<close>, and can differ in the last digit elsewhere
  (161 changed lines over 160 old lines: 100.62 here, 100.63 in Python). The properties
  below hold for every \<open>ops\<close>; this instance only runs the concrete cases, none of which
  has an inexact quotient.
\<close>

definition round_half_even :: "rat \<Rightarrow> int" where
  "round_half_even x =
     (let f = \<lfloor>x\<rfloor>; r = x - of_int f in
      if r < 1 / 2 then f else if 1 / 2 < r then f + 1 else if even f then f else f + 1)"

definition exact_str :: "rat \<Rightarrow> ustr" where
  "exact_str x =
     (let h = nat \<lfloor>x * 100\<rfloor> in
      str_of_nat (h div 100) @ u ''.'' @
      (if h mod 10 = 0 then str_of_nat (h mod 100 div 10)
       else [48 + h mod 100 div 10, 48 + h mod 10]))"

definition exact_ops :: "rat float_ops" where
  "exact_ops = \<lparr> truediv = (\<lambda>n m. of_nat n / of_nat m),
                 times_int = (\<lambda>x k. x * of_nat k),
                 round_ndigits = (\<lambda>x d. of_int (round_half_even (x * 10 ^ d)) / 10 ^ d),
                 float_str = exact_str \<rparr>"

section \<open>Narrative generation\<close>

text \<open>
  \<^verbatim>\<open>
  def safe_generate(prompt, retries=3):
      prompt = clean_and_truncate_prompt(prompt)
      fallback_prompt = "Explain this code change or answer a general question about code quality."
      for i in range(retries):
          try:
              return model.generate_content(prompt).text.strip()
          except Exception as e:
              st.warning(f"Retry {i+1} failed: {e}")
              time.sleep(2)
      st.warning("Using fallback response due to repeated errors.")
      return model.generate_content(fallback_prompt).text.strip()
  \<close>
  The generative model is outside the program. It is the parameter \<open>model\<close>: what the
  call number \<open>k\<close> (counted from 0 over the whole session) answers to a prompt, \<open>None\<close>
  when \<^verbatim>\<open>generate_content(prompt).text\<close> raises. The world records every prompt sent and
  the seconds slept; the warnings written to the page are left out. An exception that
  leaves \<^verbatim>\<open>safe_generate\<close> is the result \<open>Inl GenerationError\<close>. The second error,
  \<open>AttributeError\<close>, is that of reading a key that \<^verbatim>\<open>st.session_state\<close> does not hold.
\<close>

datatype error = GenerationError | AttributeError

record world =
  calls :: "ustr list"
  slept :: nat

type_synonym model = "nat \<Rightarrow> ustr \<Rightarrow> ustr option"

definition generate_content :: "model \<Rightarrow> ustr \<Rightarrow> world \<Rightarrow> ustr option \<times> world" where
  "generate_content model prompt w =
     (model (length (calls w)) prompt, w\<lparr>calls := calls w @ [prompt]\<rparr>)"

definition fallback_prompt :: ustr where
  "fallback_prompt =
     u ''Explain this code change or answer a general question about code quality.''"

fun attempts :: "model \<Rightarrow> ustr \<Rightarrow> nat \<Rightarrow> world \<Rightarrow> ustr option \<times> world" where
  "attempts model prompt 0 w = (None, w)"
| "attempts model prompt (Suc n) w =
     (case generate_content model prompt w of
        (Some text, w') \<Rightarrow> (Some (strip text), w')
      | (None, w') \<Rightarrow> attempts model prompt n (w'\<lparr>slept := slept w' + 2\<rparr>))"

definition safe_generate :: "model \<Rightarrow> ustr \<Rightarrow> world \<Rightarrow> (error + ustr) \<times> world" where
  "safe_generate model prompt w =
     (case attempts model (clean_and_truncate_prompt prompt) 3 w of
        (Some text, w') \<Rightarrow> (Inr text, w')
      | (None, w') \<Rightarrow>
          (case generate_content model fallback_prompt w' of
             (Some text, w'') \<Rightarrow> (Inr (strip text), w'')
           | (None, w'') \<Rightarrow> (Inl GenerationError, w'')))"

section \<open>One run of the impact analysis\<close>

text \<open>
  Streamlit runs the script again at every interaction; \<^verbatim>\<open>st.session_state\<close> lives on
  between the runs. The keys the analysis uses are the fields of \<open>session\<close>, \<open>None\<close> for a
  key that is not in the dictionary. One run of the analysis (the body under
  \<^verbatim>\<open>if old_page_title and new_page_title:\<close>, from the fetched texts on) is
  \<open>feature_4_analysis\<close>:
  \<^verbatim>\<open>
  if old_code and new_code:
      ... metrics, as above ...
      if "impact_text" not in st.session_state:
          st.session_state.impact_text = safe_generate(f"Analyze this code diff and explain the impact:\n\n{safe_diff}")
      if "rec_text" not in st.session_state:
          st.session_state.rec_text = safe_generate(f"As a senior engineer, suggest improvements for this diff:\n\n{safe_diff}")
      if "risk_text" not in st.session_state:
          raw_risk = safe_generate(f"Assess the risk of each change in this code diff with severity tags (Low, Medium, High):\n\n{safe_diff}")
          st.session_state.risk_text = re.sub(r'\b(Low|Medium|High)\b', ..., raw_risk)
      if "user_question" not in st.session_state:
          st.session_state.user_question = ""
      if "qa_answer" not in st.session_state:
          st.session_state.qa_answer = ""
      user_question_input = st.text_input(...)
      if user_question_input and user_question_input != st.session_state.user_question:
          st.session_state.user_question = user_question_input
          context = (f"Summary: {st.session_state.impact_text[:1000]}\n"
                     f"Recommendations: {st.session_state.rec_text[:1000]}\n"
                     f"Risks: {st.session_state.risk_text[:1000]}\n"
                     f"Changes: +{lines_added}, -{lines_removed}, ~{percent_change}%")
          qa_prompt = f"""You are an expert AI assistant. Based on the report below, answer the user's question clearly.\n\n{context}\n\nQuestion: {user_question_input}\n\nAnswer:"""
          st.session_state.qa_answer = safe_generate(qa_prompt)
  \<close>
  An exception of \<^verbatim>\<open>safe_generate\<close>, or of reading a key that the session does not hold,
  ends the run in the enclosing \<^verbatim>\<open>except Exception as e: st.error(...)\<close>; what the
  session held at that moment stays.
  A step returns the error, if any, and the state it leaves; \<open>and_then\<close> runs the next
  step only after a step without error. What the run writes to the page (the metrics,
  the narratives, the answer, the download buttons) reads the metrics and the session
  and changes neither; it is left out.
\<close>

record session =
  impact_text :: "ustr option"
  rec_text :: "ustr option"
  risk_text :: "ustr option"
  user_question :: "ustr option"
  qa_answer :: "ustr option"

type_synonym state = "session \<times> world"
type_synonym step = "state \<Rightarrow> error option \<times> state"

definition and_then :: "step \<Rightarrow> step \<Rightarrow> step" where
  "and_then f g st = (case f st of (Some e, st') \<Rightarrow> (Some e, st') | (None, st') \<Rightarrow> g st')"

definition impact_prompt :: "ustr \<Rightarrow> ustr" where
  "impact_prompt safe_diff =
     u ''Analyze this code diff and explain the impact:\<newline>\<newline>'' @ safe_diff"

definition rec_prompt :: "ustr \<Rightarrow> ustr" where
  "rec_prompt safe_diff =
     u ''As a senior engineer, suggest improvements for this diff:\<newline>\<newline>'' @ safe_diff"

definition risk_prompt :: "ustr \<Rightarrow> ustr" where
  "risk_prompt safe_diff =
     u ''Assess the risk of each change in this code diff with severity tags (Low, Medium, High):\<newline>\<newline>''
     @ safe_diff"

definition gen_impact :: "model \<Rightarrow> ustr \<Rightarrow> step" where
  "gen_impact model safe_diff = (\<lambda>(ss, w).
     case impact_text ss of
       Some t \<Rightarrow> (None, ss, w)
     | None \<Rightarrow>
        (case safe_generate model (impact_prompt safe_diff) w of
           (Inl e, w') \<Rightarrow> (Some e, ss, w')
         | (Inr text, w') \<Rightarrow> (None, ss\<lparr>impact_text := Some text\<rparr>, w')))"

definition gen_rec :: "model \<Rightarrow> ustr \<Rightarrow> step" where
  "gen_rec model safe_diff = (\<lambda>(ss, w).
     case rec_text ss of
       Some t \<Rightarrow> (None, ss, w)
     | None \<Rightarrow>
        (case safe_generate model (rec_prompt safe_diff) w of
           (Inl e, w') \<Rightarrow> (Some e, ss, w')
         | (Inr text, w') \<Rightarrow> (None, ss\<lparr>rec_text := Some text\<rparr>, w')))"

definition gen_risk :: "(nat \<Rightarrow> bool) \<Rightarrow> model \<Rightarrow> ustr \<Rightarrow> step" where
  "gen_risk alnum model safe_diff = (\<lambda>(ss, w).
     case risk_text ss of
       Some t \<Rightarrow> (None, ss, w)
     | None \<Rightarrow>
        (case safe_generate model (risk_prompt safe_diff) w of
           (Inl e, w') \<Rightarrow> (Some e, ss, w')
         | (Inr raw_risk, w') \<Rightarrow>
             (None, ss\<lparr>risk_text := Some (tag_severity alnum raw_risk)\<rparr>, w')))"

definition init_qa :: step where
  "init_qa = (\<lambda>(ss, w).
     let ss1 = (if user_question ss = None then ss\<lparr>user_question := Some []\<rparr> else ss);
         ss2 = (if qa_answer ss1 = None then ss1\<lparr>qa_answer := Some []\<rparr> else ss1)
     in (None, ss2, w))"

text \<open>
  Reading a key that the session does not hold raises; this is the error
  \<open>AttributeError\<close>. The question is compared with the cached one only when it is not
  empty (\<^verbatim>\<open>and\<close> skips its right side), and the three narratives are read, in this order,
  after the new question has been stored. The answer is read only for display, behind
  this step, where \<open>init_qa\<close> has set its key.
\<close>

definition qa_context :: "'f float_ops \<Rightarrow> ustr \<Rightarrow> ustr \<Rightarrow> ustr \<Rightarrow> 'f metrics \<Rightarrow> ustr" where
  "qa_context ops impact recs risk m =
     u ''Summary: '' @ take 1000 impact @ u ''\<newline>''
     @ u ''Recommendations: '' @ take 1000 recs @ u ''\<newline>''
     @ u ''Risks: '' @ take 1000 risk @ u ''\<newline>''
     @ u ''Changes: +'' @ str_of_nat (lines_added m) @ u '', -'' @ str_of_nat (lines_removed m)
     @ u '', ~'' @ float_str ops (percent_change m) @ u ''%''"

definition qa_prompt ::
  "'f float_ops \<Rightarrow> ustr \<Rightarrow> ustr \<Rightarrow> ustr \<Rightarrow> 'f metrics \<Rightarrow> ustr \<Rightarrow> ustr" where
  "qa_prompt ops impact recs risk m user_question_input =
     u ''You are an expert AI assistant. Based on the report below, answer the user's question clearly.\<newline>\<newline>''
     @ qa_context ops impact recs risk m @ u ''\<newline>\<newline>Question: '' @ user_question_input
     @ u ''\<newline>\<newline>Answer:''"

definition ask_question :: "'f float_ops \<Rightarrow> model \<Rightarrow> 'f metrics \<Rightarrow> ustr \<Rightarrow> step" where
  "ask_question ops model m user_question_input = (\<lambda>(ss, w).
     if user_question_input = [] then (None, ss, w)
     else case user_question ss of
       None \<Rightarrow> (Some AttributeError, ss, w)
     | Some cached \<Rightarrow>
        if user_question_input = cached then (None, ss, w)
        else
          (let ss' = ss\<lparr>user_question := Some user_question_input\<rparr> in
           case impact_text ss' of
             None \<Rightarrow> (Some AttributeError, ss', w)
           | Some impact \<Rightarrow>
          (case rec_text ss' of
             None \<Rightarrow> (Some AttributeError, ss', w)
           | Some recs \<Rightarrow>
          (case risk_text ss' of
             None \<Rightarrow> (Some AttributeError, ss', w)
           | Some risk \<Rightarrow>
          (case safe_generate model
                  (qa_prompt ops impact recs risk m user_question_input) w of
             (Inl e, w') \<Rightarrow> (Some e, ss', w')
           | (Inr answer, w') \<Rightarrow> (None, ss'\<lparr>qa_answer := Some answer\<rparr>, w'))))))"

text \<open>
  The outcome of a run: nothing was analysed, an exception ended the analysis after the
  metrics were shown, or the run reached its end.
\<close>

datatype 'f outcome = Skipped | Raised error "'f metrics" | Completed "'f metrics"

definition feature_4_analysis ::
  "'f float_ops \<Rightarrow> (nat \<Rightarrow> bool) \<Rightarrow> model \<Rightarrow> ustr \<Rightarrow> ustr \<Rightarrow> ustr \<Rightarrow> ustr \<Rightarrow> ustr
     \<Rightarrow> state \<Rightarrow> 'f outcome \<times> state" where
  "feature_4_analysis ops alnum model old_page_title new_page_title old_code new_code
       user_question_input st =
     (if old_code \<noteq> [] \<and> new_code \<noteq> [] then
        (let m = compute_metrics ops old_page_title new_page_title old_code new_code;
             safe_diff = clean_and_truncate_prompt
               (full_diff_text old_page_title new_page_title old_code new_code)
         in case and_then (gen_impact model safe_diff)
                 (and_then (gen_rec model safe_diff)
                 (and_then (gen_risk alnum model safe_diff)
                 (and_then init_qa
                   (ask_question ops model m user_question_input)))) st of
              (Some e, st') \<Rightarrow> (Raised e m, st')
            | (None, st') \<Rightarrow> (Completed m, st'))
      else (Skipped, st))"

text \<open>The state of a fresh browser session.\<close>

definition no_session :: session where
  "no_session = \<lparr> impact_text = None, rec_text = None, risk_text = None,
                  user_question = None, qa_answer = None \<rparr>"

definition new_world :: world where
  "new_world = \<lparr> calls = [], slept = 0 \<rparr>"

section \<open>Notions used in the properties\<close>

text \<open>
  No tag opens at a \<^verbatim>\<open><\<close> exactly when what follows is empty, starts with \<^verbatim>\<open>>\<close> or
  holds no \<^verbatim>\<open>>\<close> at all.
\<close>

definition tag_ok :: "ustr \<Rightarrow> bool" where
  "tag_ok cs = (cs = [] \<or> hd cs = 62 \<or> 62 \<notin> set cs)"

text \<open>
  A text holds a markup tag when it has the shape \<open>pre <body> post\<close> with a body that is not
  empty and holds no \<^verbatim>\<open>>\<close>. In \<open>angles_closed pre\<close> every \<^verbatim>\<open><\<close> of \<open>pre\<close> stands directly
  before a \<^verbatim>\<open>>\<close>: no tag opens inside \<open>pre\<close>, whatever follows it.
\<close>

definition has_tag :: "ustr \<Rightarrow> bool" where
  "has_tag t =
     (\<exists>pre body post. t = pre @ [60] @ body @ [62] @ post \<and> body \<noteq> [] \<and> 62 \<notin> set body)"

fun angles_closed :: "ustr \<Rightarrow> bool" where
  "angles_closed [] = True"
| "angles_closed [c] = (c \<noteq> 60)"
| "angles_closed (c # d # cs) = ((c = 60 \<longrightarrow> d = 62) \<and> angles_closed (d # cs))"

text \<open>
  The added and the removed lines of the edit script: the lines of the new text in the
  ranges of the \<^verbatim>\<open>replace\<close> and \<^verbatim>\<open>insert\<close> opcodes of the groups, and the lines of the old
  text in the ranges of the \<^verbatim>\<open>replace\<close> and \<^verbatim>\<open>delete\<close> opcodes.
\<close>

fun opcode_added :: "ustr list \<Rightarrow> opcode \<Rightarrow> ustr list" where
  "opcode_added b (tag, i1, i2, j1, j2) =
     (if tag = Replace \<or> tag = Insert then slice b j1 j2 else [])"

fun opcode_removed :: "ustr list \<Rightarrow> opcode \<Rightarrow> ustr list" where
  "opcode_removed a (tag, i1, i2, j1, j2) =
     (if tag = Replace \<or> tag = Delete then slice a i1 i2 else [])"

definition added_lines :: "ustr list \<Rightarrow> ustr list \<Rightarrow> ustr list" where
  "added_lines a b = concat (map (opcode_added b) (concat (get_grouped_opcodes 3 a b)))"

definition removed_lines :: "ustr list \<Rightarrow> ustr list \<Rightarrow> ustr list" where
  "removed_lines a b = concat (map (opcode_removed a) (concat (get_grouped_opcodes 3 a b)))"

definition one_line :: "ustr \<Rightarrow> bool" where
  "one_line l = list_all (\<lambda>c. \<not> is_linebreak c) l"

definition is_added :: "ustr \<Rightarrow> bool" where
  "is_added l = (startswith l (u ''+'') \<and> \<not> startswith l (u ''+++''))"

definition is_removed :: "ustr \<Rightarrow> bool" where
  "is_removed l = (startswith l (u ''-'') \<and> \<not> startswith l (u ''---''))"

text \<open>
  \<open>hit xs i j\<close>: column \<open>j\<close> is visited in row \<open>i\<close> when \<open>xs\<close> is compared with itself,
  that is, both hold the same element and it is not popular. \<open>run xs i j\<close> is the length
  of the run of hits that ends at row \<open>i\<close> and column \<open>j\<close>, the value that
  \<^verbatim>\<open>find_longest_match\<close> stores in \<^verbatim>\<open>j2len\<close>.
\<close>

definition hit :: "'a list \<Rightarrow> nat \<Rightarrow> nat \<Rightarrow> bool" where
  "hit xs i j = (j \<in> set (b2j xs (xs ! i)))"

fun run :: "'a list \<Rightarrow> nat \<Rightarrow> nat \<Rightarrow> nat" where
  "run xs 0 j = (if hit xs 0 j then 1 else 0)"
| "run xs (Suc i) 0 = (if hit xs (Suc i) 0 then 1 else 0)"
| "run xs (Suc i) (Suc j) = (if hit xs (Suc i) (Suc j) then run xs i j + 1 else 0)"

definition run_before :: "'a list \<Rightarrow> nat \<Rightarrow> nat \<Rightarrow> nat" where
  "run_before xs i j =
     (case i of 0 \<Rightarrow> 0 | Suc i' \<Rightarrow> (case j of 0 \<Rightarrow> 0 | Suc j' \<Rightarrow> run xs i' j'))"

definition val :: "(nat \<rightharpoonup> nat) \<Rightarrow> nat \<Rightarrow> nat" where
  "val m j = (case m j of None \<Rightarrow> 0 | Some k \<Rightarrow> k)"

text \<open>
  Models, sessions and runs for the concrete cases: a model that answers \<^verbatim>\<open> ok \<close> from
  its call number \<open>k\<close> on and fails before; a session that holds an answer to the
  question \<^verbatim>\<open>what?\<close>, and some metrics; a model that answers every prompt with the prompt
  itself, and two runs with it in one session, on two different pairs of texts.
\<close>

definition answers_from :: "nat \<Rightarrow> model" where
  "answers_from k = (\<lambda>i prompt. if k \<le> i then Some (u '' ok '') else None)"

definition answered_session :: session where
  "answered_session = \<lparr> impact_text = Some (u ''impact''), rec_text = Some (u ''advice''),
      risk_text = Some (u ''risk''), user_question = Some (u ''what?''),
      qa_answer = Some (u ''that'') \<rparr>"

definition some_metrics :: "rat metrics" where
  "some_metrics = \<lparr> lines_added = 2, lines_removed = 1, percent_change = 100,
      code_blocks_changed = 0 \<rparr>"

definition echo_model :: model where
  "echo_model k prompt = Some prompt"

definition first_pair_state :: state where
  "first_pair_state =
     snd (feature_4_analysis exact_ops (\<lambda>c. False) echo_model (u ''v1'') (u ''v2'')
       (u ''x = 1'') (u ''x = 2'') [] (no_session, new_world))"

definition second_pair_state :: state where
  "second_pair_state =
     snd (feature_4_analysis exact_ops (\<lambda>c. False) echo_model (u ''w1'') (u ''w2'')
       (u ''print(1)'') (u ''print(2)'') [] first_pair_state)"

section \<open>Properties of the prompt sanitizer\<close>

lemma match_tag_None_iff: "match_tag cs = None \<longleftrightarrow> tag_ok cs"
  by (cases cs) (auto simp: match_tag_def tag_ok_def takeWhile_eq_Nil_iff)

lemma set_strip_tags: "set (strip_tags s) \<subseteq> set s"
proof (induction s rule: strip_tags.induct)
  case 1 show ?case by simp
next
  case (2 c cs)
  show ?case
  proof (cases "c = 60")
    case False with 2 show ?thesis by auto
  next
    case True
    show ?thesis
    proof (cases "match_tag cs")
      case None with True 2 show ?thesis by auto
    next
      case (Some r)
      then have "r = tl (dropWhile (\<lambda>c. c \<noteq> 62) cs)"
        by (simp add: match_tag_def split: if_splits)
      then have "set r \<subseteq> set cs"
        by (metis list.set_sel(2) set_dropWhileD subsetI tl_Nil)
      with Some True 2 show ?thesis by auto
    qed
  qed
qed

lemma tag_ok_strip_tags: "tag_ok cs \<Longrightarrow> tag_ok (strip_tags cs)"
proof (cases cs)
  case Nil then show ?thesis by (simp add: tag_ok_def)
next
  case (Cons a as)
  assume ok: "tag_ok cs"
  show ?thesis
  proof (cases "a = 62")
    case True with Cons show ?thesis by (simp add: tag_ok_def)
  next
    case False
    with ok Cons have "62 \<notin> set cs" by (auto simp: tag_ok_def)
    with set_strip_tags [of cs] have "62 \<notin> set (strip_tags cs)" by blast
    then show ?thesis by (simp add: tag_ok_def)
  qed
qed

lemma contains_tag_strip_tags: "\<not> contains_tag (strip_tags s)"
proof (induction s rule: strip_tags.induct)
  case 1 show ?case by simp
next
  case (2 c cs)
  show ?case
  proof (cases "c = 60")
    case False with 2 show ?thesis by simp
  next
    case True
    show ?thesis
    proof (cases "match_tag cs")
      case None
      then have "match_tag (strip_tags cs) = None"
        by (simp add: match_tag_None_iff tag_ok_strip_tags)
      with None True 2 show ?thesis by simp
    next
      case (Some r) with True 2 show ?thesis by simp
    qed
  qed
qed

lemma tag_ok_filter: "tag_ok cs \<Longrightarrow> P 62 \<Longrightarrow> tag_ok (filter P cs)"
  by (cases cs) (auto simp: tag_ok_def)

lemma tag_ok_take: "tag_ok cs \<Longrightarrow> tag_ok (take n cs)"
  by (cases cs; cases n) (auto simp: tag_ok_def dest: in_set_takeD)

lemma contains_tag_filter: "\<not> contains_tag s \<Longrightarrow> P 62 \<Longrightarrow> \<not> contains_tag (filter P s)"
  by (induction s) (auto simp: match_tag_None_iff tag_ok_filter)

lemma contains_tag_take: "\<not> contains_tag s \<Longrightarrow> \<not> contains_tag (take n s)"
proof (induction s arbitrary: n)
  case Nil show ?case by simp
next
  case (Cons c cs)
  then show ?case by (cases n) (auto simp: match_tag_None_iff tag_ok_take)
qed

lemma strip_tags_id: "60 \<notin> set s \<Longrightarrow> strip_tags s = s"
  by (induction s) auto

text \<open>
  The declarative notion of a tag and the scan of the pattern agree, a text without a
  tag passes the first substitution unchanged, and the first substitution removes the
  leftmost tag and goes on behind it.
\<close>

lemma match_tag_Some_iff:
  "match_tag cs = Some r \<longleftrightarrow> (\<exists>body. cs = body @ 62 # r \<and> body \<noteq> [] \<and> 62 \<notin> set body)"
proof
  assume a: "match_tag cs = Some r"
  let ?b = "takeWhile (\<lambda>c. c \<noteq> 62) cs" and ?d = "dropWhile (\<lambda>c. c \<noteq> 62) cs"
  from a have b: "?b \<noteq> []" and d: "?d \<noteq> []" and r: "r = tl ?d"
    by (simp_all add: match_tag_def split: if_splits)
  from d have "hd ?d = 62" using hd_dropWhile [of "\<lambda>c. c \<noteq> 62" cs] by auto
  with d r have "?d = 62 # r" by (cases ?d) simp_all
  then have "cs = ?b @ 62 # r" using takeWhile_dropWhile_id [of "\<lambda>c. c \<noteq> 62" cs] by simp
  moreover have "62 \<notin> set ?b" by (auto dest: set_takeWhileD)
  ultimately show "\<exists>body. cs = body @ 62 # r \<and> body \<noteq> [] \<and> 62 \<notin> set body" using b by blast
next
  assume "\<exists>body. cs = body @ 62 # r \<and> body \<noteq> [] \<and> 62 \<notin> set body"
  then obtain body where cs: "cs = body @ 62 # r" and b: "body \<noteq> []" "62 \<notin> set body" by blast
  from b(2) have "takeWhile (\<lambda>c. c \<noteq> 62) cs = body" "dropWhile (\<lambda>c. c \<noteq> 62) cs = 62 # r"
    unfolding cs by (induction body) auto
  with b(1) show "match_tag cs = Some r" by (simp add: match_tag_def)
qed

lemma has_tag_Cons:
  "has_tag (c # cs) \<longleftrightarrow> (c = 60 \<and> match_tag cs \<noteq> None) \<or> has_tag cs"
proof
  assume "has_tag (c # cs)"
  then obtain pre body post where t: "c # cs = pre @ [60] @ body @ [62] @ post"
    and b: "body \<noteq> []" "62 \<notin> set body" by (auto simp: has_tag_def)
  show "(c = 60 \<and> match_tag cs \<noteq> None) \<or> has_tag cs"
  proof (cases pre)
    case Nil
    with t have "c = 60" "cs = body @ 62 # post" by simp_all
    with b have "match_tag cs = Some post" by (auto simp: match_tag_Some_iff)
    with \<open>c = 60\<close> show ?thesis by simp
  next
    case (Cons a as)
    with t have "cs = as @ [60] @ body @ [62] @ post" by simp
    with b have "has_tag cs" unfolding has_tag_def by blast
    then show ?thesis ..
  qed
next
  assume "(c = 60 \<and> match_tag cs \<noteq> None) \<or> has_tag cs"
  then show "has_tag (c # cs)"
  proof
    assume a: "c = 60 \<and> match_tag cs \<noteq> None"
    then obtain r where "match_tag cs = Some r" by auto
    then obtain body where "cs = body @ 62 # r" "body \<noteq> []" "62 \<notin> set body"
      by (auto simp: match_tag_Some_iff)
    with a have "c # cs = [] @ [60] @ body @ [62] @ r \<and> body \<noteq> [] \<and> 62 \<notin> set body" by simp
    then show ?thesis unfolding has_tag_def by blast
  next
    assume "has_tag cs"
    then obtain pre body post where "cs = pre @ [60] @ body @ [62] @ post"
      "body \<noteq> []" "62 \<notin> set body" by (auto simp: has_tag_def)
    then have "c # cs = (c # pre) @ [60] @ body @ [62] @ post \<and> body \<noteq> [] \<and> 62 \<notin> set body"
      by simp
    then show ?thesis unfolding has_tag_def by blast
  qed
qed

lemma has_tag_Nil: "\<not> has_tag []"
  by (simp add: has_tag_def)

lemma has_tag_iff: "has_tag t \<longleftrightarrow> contains_tag t"
  by (induction t) (simp_all add: has_tag_Nil has_tag_Cons)

lemma strip_tags_no_tag: "\<not> contains_tag t \<Longrightarrow> strip_tags t = t"
  by (induction t) auto

lemma strip_tags_leftmost:
  assumes "angles_closed pre" "body \<noteq> []" "62 \<notin> set body"
  shows "strip_tags (pre @ [60] @ body @ [62] @ post) = pre @ strip_tags post"
proof -
  from assms(2,3) have "match_tag (body @ 62 # post) = Some post"
    by (auto simp: match_tag_Some_iff)
  then have base: "strip_tags (60 # body @ 62 # post) = strip_tags post" by simp
  from assms(1) show ?thesis
proof (induction pre rule: angles_closed.induct)
  case 1
  from base show ?case by simp
next
  case (2 c)
  with base show ?case by simp
next
  case (3 c d cs)
  from "3.prems" have "angles_closed (d # cs)" by simp
  from "3.IH" [OF this]
  have ih: "strip_tags (d # cs @ 60 # body @ 62 # post) = d # cs @ strip_tags post" by simp
  show ?case
  proof (cases "c = 60")
    case False
    with ih show ?thesis by simp
  next
    case True
    with "3.prems" have d: "d = 62" by simp
    then have "match_tag (d # cs @ 60 # body @ 62 # post) = None"
      by (simp add: match_tag_def)
    with True ih show ?thesis by simp
  qed
qed
qed

lemma leftmost_tag:
  "contains_tag t \<Longrightarrow>
   \<exists>pre body post. t = pre @ [60] @ body @ [62] @ post \<and> angles_closed pre
      \<and> body \<noteq> [] \<and> 62 \<notin> set body"
proof (induction t)
  case Nil
  then show ?case by simp
next
  case (Cons c cs)
  show ?case
  proof (cases "c = 60 \<and> match_tag cs \<noteq> None")
    case True
    then obtain r where "match_tag cs = Some r" by auto
    then obtain body where "cs = body @ 62 # r" "body \<noteq> []" "62 \<notin> set body"
      by (auto simp: match_tag_Some_iff)
    with True have "c # cs = [] @ [60] @ body @ [62] @ r \<and> angles_closed []
        \<and> body \<noteq> [] \<and> 62 \<notin> set body" by simp
    then show ?thesis by blast
  next
    case False
    with Cons.prems have "contains_tag cs" by auto
    from Cons.IH [OF this] obtain pre body post where
      cs: "cs = pre @ [60] @ body @ [62] @ post" and p: "angles_closed pre"
      and b: "body \<noteq> []" "62 \<notin> set body" by blast
    have "angles_closed (c # pre)"
    proof (cases "c = 60")
      case c: False
      with p show ?thesis by (cases pre) simp_all
    next
      case c: True
      with False have n: "match_tag cs = None" by simp
      show ?thesis
      proof (cases pre)
        case Nil
        with cs b have "match_tag cs = Some post"
          using match_tag_Some_iff [of cs post] by (auto intro: exI [of _ "60 # body"])
        with n show ?thesis by simp
      next
        case (Cons d ds)
        have "d = 62"
        proof (rule ccontr)
          assume "d \<noteq> 62"
          from n have "tag_ok cs" by (simp add: match_tag_None_iff)
          with cs Cons \<open>d \<noteq> 62\<close> show False by (auto simp: tag_ok_def)
        qed
        with c p Cons show ?thesis by simp
      qed
    qed
    with cs b have "c # cs = (c # pre) @ [60] @ body @ [62] @ post \<and> angles_closed (c # pre)
        \<and> body \<noteq> [] \<and> 62 \<notin> set body" by simp
    then show ?thesis by blast
  qed
qed

lemma no_less_no_tag: "60 \<notin> set t \<Longrightarrow> \<not> has_tag t"
  by (auto simp: has_tag_def)

text \<open>
  Claim C7, as the code has it. The sanitized prompt is the first 10,000 characters of
  what is left of the text when the tags are removed and then every character with a
  code above 127 (the second pattern is \<^verbatim>\<open>[^\x00-\x7F]+\<close>, so every 7-bit character stays,
  control characters and line breaks included). Removing the tags is fixed by three
  laws: a text without a tag is left as it is; in a text \<open>pre <body> post\<close> whose \<open>pre\<close>
  opens no tag, the tag \<open><body>\<close> is removed, \<open>pre\<close> is kept, and the removal goes on in
  \<open>post\<close>; and every text with a tag has that shape. The sanitized prompt therefore has
  at most 10,000 characters, all of them 7-bit, and holds no tag; a text of at most
  10,000 7-bit characters without \<^verbatim>\<open><\<close> comes back unchanged.
\<close>

theorem clean_and_truncate_prompt_sanitizes:
  "clean_and_truncate_prompt text = take 10000 (filter (\<lambda>c. c \<le> 127) (strip_tags text))
   \<and> (\<not> has_tag text \<longrightarrow> strip_tags text = text)
   \<and> (angles_closed pre \<and> body \<noteq> [] \<and> 62 \<notin> set body \<longrightarrow>
        strip_tags (pre @ [60] @ body @ [62] @ post) = pre @ strip_tags post)
   \<and> (has_tag text \<longrightarrow>
        (\<exists>pre body post. text = pre @ [60] @ body @ [62] @ post \<and> angles_closed pre
           \<and> body \<noteq> [] \<and> 62 \<notin> set body))
   \<and> length (clean_and_truncate_prompt text) \<le> 10000
   \<and> list_all (\<lambda>c. c \<le> 127) (clean_and_truncate_prompt text)
   \<and> \<not> has_tag (clean_and_truncate_prompt text)
   \<and> (length text \<le> 10000 \<and> list_all (\<lambda>c. c \<le> 127 \<and> c \<noteq> 60) text
        \<longrightarrow> clean_and_truncate_prompt text = text)"
proof -
  have 1: "clean_and_truncate_prompt text
      = take 10000 (filter (\<lambda>c. c \<le> 127) (strip_tags text))"
    by (simp add: clean_and_truncate_prompt_def strip_non_ascii_def MAX_CHARS_def)
  have 2: "\<not> has_tag text \<longrightarrow> strip_tags text = text"
    by (simp add: has_tag_iff strip_tags_no_tag)
  have 3: "angles_closed pre \<and> body \<noteq> [] \<and> 62 \<notin> set body \<longrightarrow>
      strip_tags (pre @ [60] @ body @ [62] @ post) = pre @ strip_tags post"
    using strip_tags_leftmost by blast
  have 4: "has_tag text \<longrightarrow>
      (\<exists>pre body post. text = pre @ [60] @ body @ [62] @ post \<and> angles_closed pre
         \<and> body \<noteq> [] \<and> 62 \<notin> set body)"
    using leftmost_tag [of "text"] by (simp add: has_tag_iff)
  have 5: "length (clean_and_truncate_prompt text) \<le> 10000"
    by (simp add: 1)
  have 6: "list_all (\<lambda>c. c \<le> 127) (clean_and_truncate_prompt text)"
    by (auto simp: 1 list_all_iff dest: in_set_takeD)
  have 7: "\<not> has_tag (clean_and_truncate_prompt text)"
    unfolding 1 has_tag_iff
    by (intro contains_tag_take contains_tag_filter contains_tag_strip_tags) simp
  have 8: "length text \<le> 10000 \<and> list_all (\<lambda>c. c \<le> 127 \<and> c \<noteq> 60) text
      \<longrightarrow> clean_and_truncate_prompt text = text"
  proof
    assume a: "length text \<le> 10000 \<and> list_all (\<lambda>c. c \<le> 127 \<and> c \<noteq> 60) text"
    then have "60 \<notin> set text" "filter (\<lambda>c. c \<le> 127) text = text"
      by (auto simp: list_all_iff filter_id_conv)
    with a show "clean_and_truncate_prompt text = text"
      by (simp add: 1 strip_tags_id)
  qed
  from 1 2 3 4 5 6 7 8 show ?thesis by blast
qed

theorem clean_and_truncate_prompt_sanitizes_witness:
  "has_tag (u ''a <b>bold</b> c'' @ [233, 10] @ u ''x < y'')
   \<and> angles_closed (u ''a '') \<and> angles_closed (u ''bold'')
   \<and> \<not> has_tag (u '' c'' @ [233, 10] @ u ''x < y'')
   \<and> strip_tags (u ''a <b>bold</b> c'' @ [233, 10] @ u ''x < y'')
       = u ''a bold c'' @ [233, 10] @ u ''x < y''
   \<and> clean_and_truncate_prompt (u ''a <b>bold</b> c'' @ [233, 10] @ u ''x < y'')
       = u ''a bold c'' @ [10] @ u ''x < y''
   \<and> \<not> has_tag (u ''a bold c'' @ [10] @ u ''x < y'')
   \<and> \<not> has_tag (replicate 10001 97)
   \<and> clean_and_truncate_prompt (replicate 10001 97) = replicate 10000 97
   \<and> length [97, 10, 98 :: nat] \<le> 10000
   \<and> list_all (\<lambda>c. c \<le> 127 \<and> c \<noteq> 60) [97, 10, 98 :: nat]
   \<and> clean_and_truncate_prompt [97, 10, 98] = [97, 10, 98]"
proof -
  let ?post2 = "u '' c'' @ [233, 10] @ u ''x < y''"
  let ?post1 = "u ''bold'' @ [60] @ u ''/b'' @ [62] @ ?post2"
  let ?text = "u ''a '' @ [60] @ u ''b'' @ [62] @ ?post1"
  have t: "u ''a <b>bold</b> c'' @ [233, 10] @ u ''x < y'' = ?text"
    by (simp add: u_def)
  have h: "has_tag ?text"
    unfolding has_tag_def
    by (intro exI [of _ "u ''a ''"] exI [of _ "u ''b''"] exI [of _ ?post1]) (simp add: u_def)
  have a: "angles_closed (u ''a '')" "angles_closed (u ''bold'')"
    "u ''b'' \<noteq> []" "62 \<notin> set (u ''b'')" "u ''/b'' \<noteq> []" "62 \<notin> set (u ''/b'')"
    by (simp_all add: u_def)
  have n2: "\<not> has_tag ?post2"
    by (simp add: has_tag_iff u_def match_tag_def)
  from clean_and_truncate_prompt_sanitizes [of ?post2] n2
  have s2: "strip_tags ?post2 = ?post2" by blast
  from clean_and_truncate_prompt_sanitizes
    [where pre = "u ''bold''" and body = "u ''/b''" and post = ?post2] a
  have s1: "strip_tags ?post1 = u ''bold'' @ strip_tags ?post2" by blast
  from clean_and_truncate_prompt_sanitizes
    [where pre = "u ''a ''" and body = "u ''b''" and post = ?post1] a
  have s0: "strip_tags ?text = u ''a '' @ strip_tags ?post1" by blast
  have s: "strip_tags ?text = u ''a bold c'' @ [233, 10] @ u ''x < y''"
    unfolding s0 s1 s2 by (simp add: u_def)
  from clean_and_truncate_prompt_sanitizes [of ?text]
  have "clean_and_truncate_prompt ?text = take 10000 (filter (\<lambda>c. c \<le> 127) (strip_tags ?text))"
    by blast
  then have c: "clean_and_truncate_prompt ?text = u ''a bold c'' @ [10] @ u ''x < y''"
    unfolding s by (simp add: u_def)
  from clean_and_truncate_prompt_sanitizes [of ?text]
  have n: "\<not> has_tag (u ''a bold c'' @ [10] @ u ''x < y'')"
    unfolding c by blast
  have nr: "\<not> has_tag (replicate 10001 97)"
    by (rule no_less_no_tag) simp
  from clean_and_truncate_prompt_sanitizes [of "replicate 10001 97"] nr
  have "clean_and_truncate_prompt (replicate 10001 97)
      = take 10000 (filter (\<lambda>c. c \<le> 127) (replicate 10001 97))"
    by simp
  then have r: "clean_and_truncate_prompt (replicate 10001 97) = replicate 10000 97"
    by simp
  have l: "length [97, 10, 98 :: nat] \<le> 10000"
    "list_all (\<lambda>c. c \<le> 127 \<and> c \<noteq> 60) [97, 10, 98 :: nat]" by simp_all
  with clean_and_truncate_prompt_sanitizes [of "[97, 10, 98]"]
  have k: "clean_and_truncate_prompt [97, 10, 98] = [97, 10, 98]" by blast
  from h a n2 s c n nr r l k show ?thesis unfolding t by blast
qed

text \<open>
  Claim C7 as the specification words it asks for printable characters only. The
  two-line text \<^verbatim>\<open>a\nb\<close> passes the sanitizer unchanged, line feed included.
\<close>

theorem clean_and_truncate_prompt_keeps_line_feed:
  "clean_and_truncate_prompt [97, 10, 98] = [97, 10, 98]
   \<and> \<not> list_all printable7 (clean_and_truncate_prompt [97, 10, 98])"
  by (simp add: clean_and_truncate_prompt_def strip_non_ascii_def MAX_CHARS_def printable7_def)

section \<open>Properties of the severity tagging\<close>

lemma startswith_iff: "startswith s t \<longleftrightarrow> (\<exists>r. s = t @ r)"
  by (induction s t rule: startswith.induct) auto

lemma is_word_ascii: "c \<le> 127 \<Longrightarrow> is_word alnum c = ascii_word c"
  by (simp add: is_word_def)

lemma token_words:
  "t \<in> set severity_tokens \<Longrightarrow> t \<noteq> [] \<and> list_all (is_word alnum) t"
  by (auto simp: severity_tokens_def u_def is_word_def ascii_word_def)

lemma severity_marker_word: "word_before alnum prev \<Longrightarrow> severity_marker alnum prev s = []"
  by (simp add: severity_marker_def whole_word_here_def)

lemma mark_from_words:
  "is_word alnum p \<Longrightarrow> list_all (is_word alnum) ws \<Longrightarrow>
   mark_from alnum (Some p) (ws @ r) = ws @ mark_from alnum (Some (last (p # ws))) r"
  by (induction ws arbitrary: p) (auto simp: severity_marker_word word_before_def)

lemma tok_first:
  "t \<in> set severity_tokens \<Longrightarrow> startswith s t \<Longrightarrow>
   word_boundary alnum prev s = (\<not> word_before alnum prev)"
  by (cases s) (auto simp: severity_tokens_def u_def word_boundary_def word_before_def
      is_word_def ascii_word_def)

lemma tok_last:
  "t \<in> set severity_tokens \<Longrightarrow>
   word_boundary alnum (Some (last t)) r = (\<not> word_after alnum r)"
  by (auto simp: severity_tokens_def u_def word_boundary_def word_after_def
      is_word_def ascii_word_def)

lemma try_tokens_Some:
  "try_tokens alnum s ts = Some t \<Longrightarrow>
   t \<in> set ts \<and> startswith s t \<and> word_boundary alnum (Some (last t)) (drop (length t) s)"
  by (induction ts) (auto split: if_splits)

lemma try_tokens_None:
  "try_tokens alnum s ts = None \<Longrightarrow> t \<in> set ts \<Longrightarrow>
   \<not> (startswith s t \<and> word_boundary alnum (Some (last t)) (drop (length t) s))"
  by (induction ts) (auto split: if_splits)

lemma starts_distinct:
  "startswith s (u ''Low'') \<Longrightarrow> \<not> startswith s (u ''Medium'') \<and> \<not> startswith s (u ''High'')"
  "startswith s (u ''Medium'') \<Longrightarrow> \<not> startswith s (u ''High'')"
  by (cases s; simp add: u_def)+

lemma match_None_marker:
  assumes "match_severity alnum prev s = None"
  shows "severity_marker alnum prev s = []"
proof -
  have "\<not> whole_word_here alnum prev s t" if t: "t \<in> set severity_tokens" for t
  proof
    assume w: "whole_word_here alnum prev s t"
    then have st: "startswith s t" by (simp add: whole_word_here_def)
    from w have "word_boundary alnum prev s"
      by (simp add: tok_first [OF t st] whole_word_here_def)
    with assms have "try_tokens alnum s severity_tokens = None"
      by (simp add: match_severity_def)
    from try_tokens_None [OF this t] st w show False
      by (simp add: tok_last [OF t] whole_word_here_def)
  qed
  then show ?thesis by (simp add: severity_marker_def severity_tokens_def)
qed

lemma match_Some_marker:
  assumes "match_severity alnum prev s = Some t"
  shows "t \<in> set severity_tokens \<and> startswith s t
     \<and> severity_tag t = severity_marker alnum prev s @ t"
proof -
  from assms have b: "word_boundary alnum prev s"
    and tr: "try_tokens alnum s severity_tokens = Some t"
    by (auto simp: match_severity_def split: if_splits)
  from try_tokens_Some [OF tr] have t: "t \<in> set severity_tokens" and st: "startswith s t"
    and a: "word_boundary alnum (Some (last t)) (drop (length t) s)" by auto
  from b a have w: "whole_word_here alnum prev s t"
    by (simp add: whole_word_here_def st tok_first [OF t st] tok_last [OF t])
  from t have "t = u ''Low'' \<or> t = u ''Medium'' \<or> t = u ''High''"
    by (simp add: severity_tokens_def)
  then have "severity_tag t = severity_marker alnum prev s @ t"
  proof (elim disjE)
    assume "t = u ''Low''"
    with w show ?thesis by (simp add: severity_tag_def severity_marker_def)
  next
    assume e: "t = u ''Medium''"
    with st starts_distinct(1) [of s] have "\<not> startswith s (u ''Low'')" by blast
    with w e show ?thesis
      by (simp add: severity_tag_def severity_marker_def whole_word_here_def u_def)
  next
    assume e: "t = u ''High''"
    with st starts_distinct [of s] have "\<not> startswith s (u ''Low'')" "\<not> startswith s (u ''Medium'')"
      by blast+
    with w e show ?thesis
      by (simp add: severity_tag_def severity_marker_def whole_word_here_def u_def)
  qed
  with t st show ?thesis by simp
qed

lemma tag_from_mark_from: "tag_from alnum prev s = mark_from alnum prev s"
proof (induction alnum prev s rule: tag_from.induct)
  case (1 alnum prev)
  show ?case by simp
next
  case (2 alnum prev c cs)
  show ?case
  proof (cases "match_severity alnum prev (c # cs)")
    case None
    with 2 match_None_marker [OF None] show ?thesis by simp
  next
    case (Some t)
    from match_Some_marker [OF Some] have t: "t \<in> set severity_tokens"
      and st: "startswith (c # cs) t"
      and tg: "severity_tag t = severity_marker alnum prev (c # cs) @ t" by auto
    from token_words [OF t] have ne: "t \<noteq> []" and ws: "list_all (is_word alnum) t" by auto
    from st obtain r where r: "c # cs = t @ r" by (auto simp: startswith_iff)
    with ne obtain ws where tw: "t = c # ws" by (cases t) auto
    with r have cs: "cs = ws @ r" by simp
    from ws tw have wc: "is_word alnum c" and wws: "list_all (is_word alnum) ws" by auto
    have "tag_from alnum prev (c # cs)
        = severity_tag t @ tag_from alnum (Some (last t)) (drop (length t) (c # cs))"
      using Some by simp
    also have "drop (length t) (c # cs) = r" using r by simp
    also have "tag_from alnum (Some (last t)) r = mark_from alnum (Some (last t)) r"
      using 2(2) [OF Some] r by simp
    finally have "tag_from alnum prev (c # cs)
        = severity_marker alnum prev (c # cs) @ c # ws @ mark_from alnum (Some (last (c # ws))) r"
      using tg tw by simp
    also have "ws @ mark_from alnum (Some (last (c # ws))) r = mark_from alnum (Some c) cs"
      using mark_from_words [OF wc wws, of r] cs by simp
    finally show ?thesis by simp
  qed
qed

lemma strip_markers_plain: "\<not> is_marker c \<Longrightarrow> strip_markers (c # xs) = c # strip_markers xs"
  by (cases xs) auto

lemma severity_marker_cases:
  "severity_marker alnum prev s = [] \<or> (\<exists>e. is_marker e \<and> severity_marker alnum prev s = [e, 32])"
  by (simp add: severity_marker_def is_marker_def)

lemma strip_markers_mark_from:
  "list_all (\<lambda>c. \<not> is_marker c) s \<Longrightarrow> strip_markers (mark_from alnum prev s) = s"
proof (induction s arbitrary: prev)
  case Nil show ?case by simp
next
  case (Cons c cs)
  then have c: "\<not> is_marker c" and ih: "strip_markers (mark_from alnum (Some c) cs) = cs" by auto
  from severity_marker_cases [of alnum prev "c # cs"] show ?case
    by (auto simp: strip_markers_plain [OF c] ih)
qed

text \<open>
  Claim C6. The substitution of the source equals the marking of whole-word occurrences:
  every position where \<^verbatim>\<open>Low\<close>, \<^verbatim>\<open>Medium\<close> or \<^verbatim>\<open>High\<close> stands as a whole word gets its
  marker in front, and nothing else is touched; on a text that holds no marker
  character, taking the markers out of the result gives the text back. In
  \<^verbatim>\<open>Risk: Low overall, Lowest priority\<close> only \<^verbatim>\<open>Low\<close> is tagged.
\<close>

theorem tag_severity_whole_words:
  "tag_severity alnum text = mark_whole_words alnum text
   \<and> (list_all (\<lambda>c. \<not> is_marker c) text \<longrightarrow> strip_markers (tag_severity alnum text) = text)
   \<and> tag_severity alnum (u ''Risk: Low overall, Lowest priority'')
       = u ''Risk: '' @ [128994, 32] @ u ''Low overall, Lowest priority''"
proof -
  have eq: "tag_severity alnum t = mark_whole_words alnum t" for t
    by (simp add: tag_severity_def mark_whole_words_def tag_from_mark_from)
  have "strip_markers (tag_severity alnum text) = text"
    if "list_all (\<lambda>c. \<not> is_marker c) text"
    using that by (simp add: eq mark_whole_words_def strip_markers_mark_from)
  moreover have "mark_whole_words alnum (u ''Risk: Low overall, Lowest priority'')
       = u ''Risk: '' @ [128994, 32] @ u ''Low overall, Lowest priority''"
    by (simp add: mark_whole_words_def u_def severity_marker_def whole_word_here_def
        word_before_def word_after_def is_word_def ascii_word_def)
  ultimately show ?thesis by (simp add: eq)
qed

theorem tag_severity_whole_words_witness:
  "list_all (\<lambda>c. \<not> is_marker c) (u ''High, Higher, Low_1 (Medium)'')
   \<and> tag_severity (\<lambda>c. False) (u ''High, Higher, Low_1 (Medium)'')
       = [128308, 32] @ u ''High, Higher, Low_1 ('' @ [128993, 32] @ u ''Medium)''
   \<and> strip_markers (tag_severity (\<lambda>c. False) (u ''High, Higher, Low_1 (Medium)''))
       = u ''High, Higher, Low_1 (Medium)''"
proof -
  have nm: "list_all (\<lambda>c. \<not> is_marker c) (u ''High, Higher, Low_1 (Medium)'')"
    by (simp add: u_def is_marker_def)
  have "mark_whole_words (\<lambda>c. False) (u ''High, Higher, Low_1 (Medium)'')
       = [128308, 32] @ u ''High, Higher, Low_1 ('' @ [128993, 32] @ u ''Medium)''"
    by (simp add: mark_whole_words_def u_def severity_marker_def whole_word_here_def
        word_before_def word_after_def is_word_def ascii_word_def)
  with nm tag_severity_whole_words [of "\<lambda>c. False" "u ''High, Higher, Low_1 (Medium)''"]
  show ?thesis by metis
qed

section \<open>Properties of narrative generation\<close>

lemma attempts_3:
  "attempts model p 3 w =
     (case model (length (calls w)) p of
        Some t \<Rightarrow> (Some (strip t), w\<lparr>calls := calls w @ [p]\<rparr>)
      | None \<Rightarrow>
     (case model (length (calls w) + 1) p of
        Some t \<Rightarrow> (Some (strip t), w\<lparr>calls := calls w @ [p, p], slept := slept w + 2\<rparr>)
      | None \<Rightarrow>
     (case model (length (calls w) + 2) p of
        Some t \<Rightarrow> (Some (strip t), w\<lparr>calls := calls w @ [p, p, p], slept := slept w + 4\<rparr>)
      | None \<Rightarrow> (None, w\<lparr>calls := calls w @ [p, p, p], slept := slept w + 6\<rparr>))))"
  by (simp add: numeral_3_eq_3 generate_content_def split: option.splits)

lemma safe_generate_calls:
  assumes "safe_generate model prompt w = (r, w')"
  shows "\<exists>ps. calls w' = calls w @ ps \<and> 1 \<le> length ps \<and> length ps \<le> 4"
  using assms
  by (auto simp: safe_generate_def attempts_3 generate_content_def split: option.splits)




section \<open>Properties of a run of the analysis\<close>

text \<open>
  A run whose session already holds the three narratives and the two question keys, and
  whose question is empty or the one answered last, changes nothing and calls nothing,
  whatever the two texts are.
\<close>

lemma run_on_cached_session:
  assumes "impact_text ss \<noteq> None" "rec_text ss \<noteq> None" "risk_text ss \<noteq> None"
    and "user_question ss \<noteq> None" "qa_answer ss \<noteq> None"
    and "q = [] \<or> user_question ss = Some q"
    and "old_code \<noteq> []" "new_code \<noteq> []"
  shows "feature_4_analysis ops alnum model t1 t2 old_code new_code q (ss, w)
    = (Completed (compute_metrics ops t1 t2 old_code new_code), ss, w)"
  using assms
  by (auto simp: feature_4_analysis_def and_then_def gen_impact_def gen_rec_def gen_risk_def
      init_qa_def ask_question_def Let_def)

text \<open>
  A failure that leaves \<^verbatim>\<open>safe_generate\<close> at the first narrative ends the run there, with
  the metrics shown and the session as it was.
\<close>

lemma generation_failure_ends_run:
  assumes "old_code \<noteq> []" "new_code \<noteq> []" "impact_text ss = None"
    and "safe_generate model
           (impact_prompt (clean_and_truncate_prompt (full_diff_text t1 t2 old_code new_code))) w
         = (Inl e, w')"
  shows "feature_4_analysis ops alnum model t1 t2 old_code new_code q (ss, w)
    = (Raised e (compute_metrics ops t1 t2 old_code new_code), ss, w')"
  using assms by (simp add: feature_4_analysis_def and_then_def gen_impact_def Let_def)

text \<open>
  Claim C10. When the old or the new text is empty, the run computes no metrics, sends
  no prompt and leaves session and world as they were.
\<close>

theorem empty_text_skips_analysis:
  "old_code = [] \<or> new_code = [] \<Longrightarrow>
   feature_4_analysis ops alnum model old_page_title new_page_title old_code new_code
     user_question_input st = (Skipped, st)"
  by (auto simp: feature_4_analysis_def)

theorem empty_text_skips_analysis_witness:
  "feature_4_analysis exact_ops (\<lambda>c. False) (answers_from 0) (u ''old'') (u ''new'')
     [] (u ''x = 1'') (u ''why?'') (no_session, new_world) = (Skipped, no_session, new_world)"
  using empty_text_skips_analysis [of "[]" "u ''x = 1''" exact_ops "\<lambda>c. False" "answers_from 0"
      "u ''old''" "u ''new''" "u ''why?''" "(no_session, new_world)"]
  by simp

text \<open>
  What asking a question does in a session that holds the three narratives and a cached
  question. An empty question and the cached question call nothing and leave the
  session as it is. Any other question is stored first; then \<^verbatim>\<open>safe_generate\<close> runs once
  on its prompt and sends one to four prompts to the model. Its answer becomes the
  cached answer; its failure ends the run and leaves the new question stored beside the
  answer to the question before.
\<close>

lemma ask_question_steps:
  assumes "impact_text ss = Some impact" "rec_text ss = Some recs" "risk_text ss = Some risk"
    and "user_question ss = Some cached"
  shows "q = [] \<or> q = cached \<Longrightarrow> ask_question ops model m q (ss, w) = (None, ss, w)"
    and "q \<noteq> [] \<Longrightarrow> q \<noteq> cached \<Longrightarrow>
         safe_generate model (qa_prompt ops impact recs risk m q) w = (Inr answer, w') \<Longrightarrow>
         ask_question ops model m q (ss, w)
           = (None, ss\<lparr>user_question := Some q, qa_answer := Some answer\<rparr>, w')"
    and "q \<noteq> [] \<Longrightarrow> q \<noteq> cached \<Longrightarrow>
         safe_generate model (qa_prompt ops impact recs risk m q) w = (Inl e, w') \<Longrightarrow>
         ask_question ops model m q (ss, w) = (Some e, ss\<lparr>user_question := Some q\<rparr>, w')"
  using assms by (auto simp: ask_question_def Let_def)

lemma ask_question_calls:
  "\<exists>ps. calls (snd (snd (ask_question ops model m q (ss, w)))) = calls w @ ps \<and> length ps \<le> 4"
proof -
  have "\<exists>ps. calls w' = calls w @ ps \<and> length ps \<le> 4"
    if "safe_generate model p w = (r, w')" for p r w'
    using safe_generate_calls [OF that] by auto
  then show ?thesis
    by (auto simp: ask_question_def Let_def split: option.splits sum.splits prod.splits)
qed

text \<open>
  A question asked without the key \<^verbatim>\<open>user_question\<close>, or without one of the three
  narratives, raises; inside a run the steps before have set these keys.
\<close>

lemma ask_question_missing_key:
  "q \<noteq> [] \<Longrightarrow> user_question ss = None \<Longrightarrow>
   ask_question ops model m q (ss, w) = (Some AttributeError, ss, w)"
  "q \<noteq> [] \<Longrightarrow> user_question ss = Some cached \<Longrightarrow> q \<noteq> cached \<Longrightarrow>
   impact_text ss = None \<or> rec_text ss = None \<or> risk_text ss = None \<Longrightarrow>
   ask_question ops model m q (ss, w) = (Some AttributeError, ss\<lparr>user_question := Some q\<rparr>, w)"
  by (auto simp: ask_question_def Let_def split: option.splits)

text \<open>
  Claim C8 asks that only a question identical to the one answered before is served
  from the cache, and that a different question replaces the cached answer. The code
  stores the question before \<^verbatim>\<open>safe_generate\<close> has returned. In a session that holds the
  answer \<^verbatim>\<open>that\<close> to the question \<^verbatim>\<open>what?\<close>, with a model that fails on its first four
  calls and answers from then on: asking \<^verbatim>\<open>why?\<close> sends four prompts, all fail, and the
  run ends with the error; the session now holds the question \<^verbatim>\<open>why?\<close> beside the answer
  \<^verbatim>\<open>that\<close>. Asking \<^verbatim>\<open>why?\<close> again sends nothing, although the model would answer now, and
  the run completes with the answer to \<^verbatim>\<open>what?\<close> as the answer to \<^verbatim>\<open>why?\<close>.
\<close>

theorem failed_question_keeps_old_answer:
  "ask_question exact_ops (answers_from 4) some_metrics (u ''why?'') (answered_session, new_world)
     = (Some GenerationError,
        answered_session\<lparr>user_question := Some (u ''why?'')\<rparr>,
        \<lparr>calls = replicate 3 (clean_and_truncate_prompt
                     (qa_prompt exact_ops (u ''impact'') (u ''advice'') (u ''risk'')
                        some_metrics (u ''why?'')))
                  @ [fallback_prompt],
          slept = 6\<rparr>)
   \<and> (let ss = answered_session\<lparr>user_question := Some (u ''why?'')\<rparr>;
           p = clean_and_truncate_prompt
                 (qa_prompt exact_ops (u ''impact'') (u ''advice'') (u ''risk'')
                    some_metrics (u ''why?''));
           w = \<lparr>calls = replicate 3 p @ [fallback_prompt], slept = 6\<rparr>
       in ask_question exact_ops (answers_from 4) some_metrics (u ''why?'') (ss, w)
            = (None, ss, w)
          \<and> feature_4_analysis exact_ops (\<lambda>c. False) (answers_from 4) (u ''v1'') (u ''v2'')
              (u ''x = 1'') (u ''x = 2'') (u ''why?'') (ss, w)
            = (Completed (compute_metrics exact_ops (u ''v1'') (u ''v2'') (u ''x = 1'') (u ''x = 2'')),
               ss, w)
          \<and> user_question ss = Some (u ''why?'')
          \<and> qa_answer ss = Some (u ''that'')
          \<and> answers_from 4 (length (calls w)) p = Some (u '' ok ''))"
proof -
  let ?ss = "answered_session\<lparr>user_question := Some (u ''why?'')\<rparr>"
  let ?q = "qa_prompt exact_ops (u ''impact'') (u ''advice'') (u ''risk'') some_metrics (u ''why?'')"
  let ?w = "\<lparr>calls = replicate 3 (clean_and_truncate_prompt ?q) @ [fallback_prompt], slept = 6\<rparr>"
  have keys: "impact_text answered_session = Some (u ''impact'')"
    "rec_text answered_session = Some (u ''advice'')"
    "risk_text answered_session = Some (u ''risk'')"
    "user_question answered_session = Some (u ''what?'')"
    "qa_answer answered_session = Some (u ''that'')"
    by (simp_all add: answered_session_def)
  have ne: "u ''why?'' \<noteq> []" "u ''why?'' \<noteq> u ''what?''" "u ''x = 1'' \<noteq> []" "u ''x = 2'' \<noteq> []"
    by (simp_all add: u_def)
  have sg: "safe_generate (answers_from 4) ?q new_world = (Inl GenerationError, ?w)"
    by (simp add: safe_generate_def attempts_3 generate_content_def answers_from_def
        new_world_def numeral_3_eq_3)
  have 1: "ask_question exact_ops (answers_from 4) some_metrics (u ''why?'')
      (answered_session, new_world) = (Some GenerationError, ?ss, ?w)"
    using ask_question_steps(3) [OF keys(1-4) ne(1,2) sg] .
  have 2: "ask_question exact_ops (answers_from 4) some_metrics (u ''why?'') (?ss, ?w)
      = (None, ?ss, ?w)"
    by (simp add: ask_question_def ne)
  have 3: "feature_4_analysis exact_ops (\<lambda>c. False) (answers_from 4) (u ''v1'') (u ''v2'')
      (u ''x = 1'') (u ''x = 2'') (u ''why?'') (?ss, ?w)
    = (Completed (compute_metrics exact_ops (u ''v1'') (u ''v2'') (u ''x = 1'') (u ''x = 2'')),
       ?ss, ?w)"
    by (rule run_on_cached_session) (simp_all add: keys ne)
  have 4: "answers_from 4 (length (calls ?w)) (clean_and_truncate_prompt ?q) = Some (u '' ok '')"
    by (simp add: answers_from_def)
  from 1 2 3 4 show ?thesis by (simp add: Let_def keys)
qed

lemma first_pair_diff:
  "full_diff_text (u ''v1'') (u ''v2'') (u ''x = 1'') (u ''x = 2'')
     = u ''--- v1\<newline>+++ v2\<newline>@@ -1 +1 @@\<newline>-x = 1\<newline>+x = 2''"
proof -
  have "splitlines (u ''x = 1'') = [u ''x = 1'']" "splitlines (u ''x = 2'') = [u ''x = 2'']"
    by (simp_all add: splitlines_def u_def is_linebreak_def)
  moreover have "unified_diff [u ''x = 1''] [u ''x = 2''] (u ''v1'') (u ''v2'')
      = [u ''--- v1'', u ''+++ v2'', u ''@@ -1 +1 @@'', u ''-x = 1'', u ''+x = 2'']"
    by code_simp
  ultimately show ?thesis by (simp add: full_diff_text_def u_def)
qed

lemma first_pair_prompts:
  fixes d :: ustr
  defines "d \<equiv> u ''--- v1\<newline>+++ v2\<newline>@@ -1 +1 @@\<newline>-x = 1\<newline>+x = 2''"
  shows "clean_and_truncate_prompt d = d"
    "clean_and_truncate_prompt (impact_prompt d) = impact_prompt d"
    "clean_and_truncate_prompt (rec_prompt d) = rec_prompt d"
    "clean_and_truncate_prompt (risk_prompt d) = risk_prompt d"
    "strip (impact_prompt d) = impact_prompt d"
    "strip (rec_prompt d) = rec_prompt d"
    "strip (risk_prompt d) = risk_prompt d"
  unfolding d_def
  by (simp_all add: impact_prompt_def rec_prompt_def risk_prompt_def u_def
      clean_and_truncate_prompt_def strip_non_ascii_def MAX_CHARS_def strip_def py_isspace_def)

lemma first_pair_state_eq:
  fixes d :: ustr
  defines "d \<equiv> u ''--- v1\<newline>+++ v2\<newline>@@ -1 +1 @@\<newline>-x = 1\<newline>+x = 2''"
  shows "first_pair_state =
    (\<lparr> impact_text = Some (impact_prompt d), rec_text = Some (rec_prompt d),
       risk_text = Some (tag_severity (\<lambda>c. False) (risk_prompt d)),
       user_question = Some [], qa_answer = Some [] \<rparr>,
     \<lparr> calls = [impact_prompt d, rec_prompt d, risk_prompt d], slept = 0 \<rparr>)"
proof -
  have ne: "u ''x = 1'' \<noteq> []" "u ''x = 2'' \<noteq> []" by (simp_all add: u_def)
  show ?thesis
    unfolding first_pair_state_def d_def
    by (simp add: feature_4_analysis_def ne first_pair_diff first_pair_prompts Let_def
        and_then_def gen_impact_def gen_rec_def gen_risk_def init_qa_def ask_question_def
        safe_generate_def attempts_3 generate_content_def echo_model_def
        no_session_def new_world_def)
qed

text \<open>
  Claim C4 asks that a new pair of snapshots never receives the narratives of an earlier
  pair. The narrative keys of the session carry no trace of the pair they were made for
  (\<open>run_on_cached_session\<close> holds for any two texts), so the claim fails on the code:
  with a model that answers every prompt with the prompt itself, the second run, on the
  pair \<^verbatim>\<open>print(1)\<close> / \<^verbatim>\<open>print(2)\<close>, sends nothing and leaves the session of the first run,
  on the pair \<^verbatim>\<open>x = 1\<close> / \<^verbatim>\<open>x = 2\<close>, as it is: its impact text is the one made from the
  diff of the first pair.
\<close>

theorem stale_narratives_for_new_pair:
  "second_pair_state = first_pair_state
   \<and> impact_text (fst second_pair_state)
       = Some (u ''Analyze this code diff and explain the impact:\<newline>\<newline>--- v1\<newline>+++ v2\<newline>@@ -1 +1 @@\<newline>-x = 1\<newline>+x = 2'')
   \<and> length (calls (snd second_pair_state)) = 3"
proof -
  have ne: "u ''print(1)'' \<noteq> []" "u ''print(2)'' \<noteq> []" by (simp_all add: u_def)
  have 2: "second_pair_state = first_pair_state"
    unfolding second_pair_state_def
    by (subst (1 2) first_pair_state_eq, subst run_on_cached_session)
       (simp_all add: ne)
  have "impact_text (fst first_pair_state)
       = Some (u ''Analyze this code diff and explain the impact:\<newline>\<newline>--- v1\<newline>+++ v2\<newline>@@ -1 +1 @@\<newline>-x = 1\<newline>+x = 2'')"
    by (simp add: first_pair_state_eq impact_prompt_def u_def)
  moreover have "length (calls (snd first_pair_state)) = 3"
    by (simp add: first_pair_state_eq)
  ultimately show ?thesis by (simp add: 2)
qed

section \<open>Properties of the change metrics\<close>

lemma splitlines_from_cur: "cur \<noteq> [] \<Longrightarrow> splitlines_from cur s \<noteq> []"
  by (induction s arbitrary: cur) auto

lemma splitlines_nonempty: "s \<noteq> [] \<Longrightarrow> splitlines s \<noteq> []"
  by (cases s) (auto simp: splitlines_def splitlines_from_cur)

lemma splitlines_from_count:
  "list_all (\<lambda>c. is_linebreak c \<longrightarrow> c = 10) s \<Longrightarrow>
   length (splitlines_from cur s)
     = count_newlines s + (if (s = [] \<and> cur = []) \<or> (s \<noteq> [] \<and> last s = 10) then 0 else 1)"
proof (induction s arbitrary: cur)
  case Nil
  then show ?case by (simp add: count_newlines_def)
next
  case (Cons c cs)
  then have ih: "\<And>cur. length (splitlines_from cur cs)
     = count_newlines cs + (if (cs = [] \<and> cur = []) \<or> (cs \<noteq> [] \<and> last cs = 10) then 0 else 1)"
    and c: "is_linebreak c \<longrightarrow> c = 10" by simp_all
  show ?case
  proof (cases "c = 10")
    case True
    then show ?thesis by (auto simp: ih count_newlines_def is_linebreak_def)
  next
    case False
    with c have "\<not> is_linebreak c" by simp
    moreover from this have "c \<noteq> 13" by (auto simp: is_linebreak_def)
    ultimately show ?thesis using False by (simp add: ih count_newlines_def)
  qed
qed

text \<open>
  The only error of a run is a failed generation: the steps before the question set
  every key that asking the question reads.
\<close>

lemma safe_generate_error:
  "safe_generate model prompt w = (Inl e, w') \<Longrightarrow> e = GenerationError"
  by (auto simp: safe_generate_def split: prod.splits option.splits)

lemma gen_impact_sets:
  "gen_impact model d (ss, w) = (r, ss', w') \<Longrightarrow>
   (r = None \<longrightarrow> impact_text ss' \<noteq> None) \<and> (r \<noteq> None \<longrightarrow> r = Some GenerationError)"
  by (auto simp: gen_impact_def split: option.splits prod.splits sum.splits
      dest: safe_generate_error)

lemma gen_rec_sets:
  "gen_rec model d (ss, w) = (r, ss', w') \<Longrightarrow>
   (r = None \<longrightarrow> rec_text ss' \<noteq> None \<and> impact_text ss' = impact_text ss)
   \<and> (r \<noteq> None \<longrightarrow> r = Some GenerationError)"
  by (auto simp: gen_rec_def split: option.splits prod.splits sum.splits
      dest: safe_generate_error)

lemma gen_risk_sets:
  "gen_risk alnum model d (ss, w) = (r, ss', w') \<Longrightarrow>
   (r = None \<longrightarrow> risk_text ss' \<noteq> None \<and> impact_text ss' = impact_text ss
      \<and> rec_text ss' = rec_text ss)
   \<and> (r \<noteq> None \<longrightarrow> r = Some GenerationError)"
  by (auto simp: gen_risk_def split: option.splits prod.splits sum.splits
      dest: safe_generate_error)

lemma init_qa_sets:
  "init_qa (ss, w) = (r, ss', w') \<Longrightarrow>
   r = None \<and> user_question ss' \<noteq> None \<and> impact_text ss' = impact_text ss
   \<and> rec_text ss' = rec_text ss \<and> risk_text ss' = risk_text ss"
  by (auto simp: init_qa_def Let_def split: if_splits)

lemma ask_question_error:
  assumes "impact_text ss \<noteq> None" "rec_text ss \<noteq> None" "risk_text ss \<noteq> None"
    and "user_question ss \<noteq> None"
    and "ask_question ops model m q (ss, w) = (Some e, st')"
  shows "e = GenerationError"
  using assms
  by (auto simp: ask_question_def Let_def split: if_splits prod.splits sum.splits
      dest: safe_generate_error)

lemma steps_error:
  assumes "and_then (gen_impact model d)
     (and_then (gen_rec model d)
     (and_then (gen_risk alnum model d)
     (and_then init_qa (ask_question ops model m q)))) st = (Some e, st')"
  shows "e = GenerationError"
proof -
  obtain ss w where st: "st = (ss, w)" by (cases st)
  obtain r1 ss1 w1 where 1: "gen_impact model d (ss, w) = (r1, ss1, w1)"
    by (cases "gen_impact model d (ss, w)")
  obtain r2 ss2 w2 where 2: "gen_rec model d (ss1, w1) = (r2, ss2, w2)"
    by (cases "gen_rec model d (ss1, w1)")
  obtain r3 ss3 w3 where 3: "gen_risk alnum model d (ss2, w2) = (r3, ss3, w3)"
    by (cases "gen_risk alnum model d (ss2, w2)")
  obtain r4 ss4 w4 where 4: "init_qa (ss3, w3) = (r4, ss4, w4)"
    by (cases "init_qa (ss3, w3)")
  note s1 = gen_impact_sets [OF 1] and s2 = gen_rec_sets [OF 2]
    and s3 = gen_risk_sets [OF 3] and s4 = init_qa_sets [OF 4]
  show ?thesis
  proof (cases "r1 = None \<and> r2 = None \<and> r3 = None")
    case True
    with s1 s2 s3 s4 have keys: "impact_text ss4 \<noteq> None" "rec_text ss4 \<noteq> None"
      "risk_text ss4 \<noteq> None" "user_question ss4 \<noteq> None" and r4: "r4 = None"
      by simp_all
    from assms True r4 have "ask_question ops model m q (ss4, w4) = (Some e, st')"
      by (simp add: and_then_def st 1 2 3 4)
    from ask_question_error [OF keys this] show ?thesis .
  next
    case False
    with assms s1 s2 s3 show ?thesis
      by (auto simp: and_then_def st 1 2 3 4 split: option.splits)
  qed
qed

lemma run_outcome:
  assumes "old_code \<noteq> []" "new_code \<noteq> []"
  shows "\<exists>st'. feature_4_analysis ops alnum model t1 t2 old_code new_code q st
           = (Completed (compute_metrics ops t1 t2 old_code new_code), st')
         \<or> feature_4_analysis ops alnum model t1 t2 old_code new_code q st
           = (Raised GenerationError (compute_metrics ops t1 t2 old_code new_code), st')"
proof -
  let ?r = "and_then (gen_impact model (clean_and_truncate_prompt (full_diff_text t1 t2 old_code new_code)))
     (and_then (gen_rec model (clean_and_truncate_prompt (full_diff_text t1 t2 old_code new_code)))
     (and_then (gen_risk alnum model (clean_and_truncate_prompt (full_diff_text t1 t2 old_code new_code)))
     (and_then init_qa
       (ask_question ops model (compute_metrics ops t1 t2 old_code new_code) q)))) st"
  obtain e st' where r: "?r = (e, st')" by (cases ?r)
  show ?thesis
  proof (cases e)
    case None
    with r assms show ?thesis by (simp add: feature_4_analysis_def Let_def)
  next
    case (Some err)
    with r have "err = GenerationError" by (auto dest: steps_error)
    with Some r assms show ?thesis by (simp add: feature_4_analysis_def Let_def)
  qed
qed

text \<open>
  Claim C1, as the code has it. The percentage is the rounding to two places of the
  quotient of the changed lines by the number of old lines, times 100, computed in this
  order, where \<^verbatim>\<open>len(old_lines) or 1\<close> is the maximum of that number and 1. The analysis
  runs only on two non-empty texts; then the old text has at least one line, the floor of
  1 has no effect, and the run shows these metrics. With an empty text there are no
  metrics at all.
\<close>

theorem percent_change_formula:
  "percent_change (compute_metrics ops t1 t2 old_code new_code)
     = round_ndigits ops
         (times_int ops
           (truediv ops
             (lines_added (compute_metrics ops t1 t2 old_code new_code)
              + lines_removed (compute_metrics ops t1 t2 old_code new_code))
             (max 1 (length (splitlines old_code))))
           100) 2
   \<and> (old_code \<noteq> [] \<and> new_code \<noteq> [] \<longrightarrow>
        max 1 (length (splitlines old_code)) = length (splitlines old_code)
        \<and> (\<exists>st'. feature_4_analysis ops alnum model t1 t2 old_code new_code q st
                   = (Completed (compute_metrics ops t1 t2 old_code new_code), st')
                \<or> feature_4_analysis ops alnum model t1 t2 old_code new_code q st
                   = (Raised GenerationError (compute_metrics ops t1 t2 old_code new_code), st')))
   \<and> (old_code = [] \<or> new_code = [] \<longrightarrow>
        feature_4_analysis ops alnum model t1 t2 old_code new_code q st = (Skipped, st))"
proof (intro conjI impI)
  show "percent_change (compute_metrics ops t1 t2 old_code new_code)
     = round_ndigits ops
         (times_int ops
           (truediv ops
             (lines_added (compute_metrics ops t1 t2 old_code new_code)
              + lines_removed (compute_metrics ops t1 t2 old_code new_code))
             (max 1 (length (splitlines old_code))))
           100) 2"
    by (cases "splitlines old_code") (simp_all add: compute_metrics_def Let_def)
next
  assume "old_code \<noteq> [] \<and> new_code \<noteq> []"
  then show "max 1 (length (splitlines old_code)) = length (splitlines old_code)"
    using splitlines_nonempty [of old_code] by (cases "splitlines old_code") simp_all
next
  assume "old_code \<noteq> [] \<and> new_code \<noteq> []"
  then show "\<exists>st'. feature_4_analysis ops alnum model t1 t2 old_code new_code q st
                   = (Completed (compute_metrics ops t1 t2 old_code new_code), st')
                \<or> feature_4_analysis ops alnum model t1 t2 old_code new_code q st
                   = (Raised GenerationError (compute_metrics ops t1 t2 old_code new_code), st')"
    using run_outcome by blast
next
  assume "old_code = [] \<or> new_code = []"
  then show "feature_4_analysis ops alnum model t1 t2 old_code new_code q st = (Skipped, st)"
    by (auto simp: feature_4_analysis_def)
qed

text \<open>
  The example of the specification: the three old lines \<^verbatim>\<open>a\<close>, \<^verbatim>\<open>b\<close>, \<^verbatim>\<open>c\<close> against the four
  new lines \<^verbatim>\<open>a\<close>, \<^verbatim>\<open>x\<close>, \<^verbatim>\<open>c\<close>, \<^verbatim>\<open>d\<close>.
\<close>

lemma example_diff:
  "full_diff_text (u ''old'') (u ''new'') (u ''a\<newline>b\<newline>c'') (u ''a\<newline>x\<newline>c\<newline>d'')
     = u ''--- old\<newline>+++ new\<newline>@@ -1,3 +1,4 @@\<newline> a\<newline>-b\<newline>+x\<newline> c\<newline>+d''"
proof -
  have "splitlines (u ''a\<newline>b\<newline>c'') = [u ''a'', u ''b'', u ''c'']"
    "splitlines (u ''a\<newline>x\<newline>c\<newline>d'') = [u ''a'', u ''x'', u ''c'', u ''d'']"
    by (simp_all add: splitlines_def u_def is_linebreak_def)
  moreover have "unified_diff [u ''a'', u ''b'', u ''c''] [u ''a'', u ''x'', u ''c'', u ''d'']
      (u ''old'') (u ''new'')
    = [u ''--- old'', u ''+++ new'', u ''@@ -1,3 +1,4 @@'', u '' a'', u ''-b'', u ''+x'',
       u '' c'', u ''+d'']"
    by code_simp
  ultimately show ?thesis by (simp add: full_diff_text_def u_def)
qed

lemma example_metrics:
  "compute_metrics exact_ops (u ''old'') (u ''new'') (u ''a\<newline>b\<newline>c'') (u ''a\<newline>x\<newline>c\<newline>d'')
     = \<lparr> lines_added = 2, lines_removed = 1, percent_change = 100, code_blocks_changed = 0 \<rparr>"
proof -
  have "splitlines (u ''a\<newline>b\<newline>c'') = [u ''a'', u ''b'', u ''c'']"
    by (simp add: splitlines_def u_def is_linebreak_def)
  moreover have "count_added (u ''--- old\<newline>+++ new\<newline>@@ -1,3 +1,4 @@\<newline> a\<newline>-b\<newline>+x\<newline> c\<newline>+d'') = 2"
    "count_removed (u ''--- old\<newline>+++ new\<newline>@@ -1,3 +1,4 @@\<newline> a\<newline>-b\<newline>+x\<newline> c\<newline>+d'') = 1"
    by (simp_all add: count_added_def count_removed_def splitlines_def u_def is_linebreak_def)
  moreover have "count_newlines (u ''a\<newline>b\<newline>c'') = 2" "count_newlines (u ''a\<newline>x\<newline>c\<newline>d'') = 3"
    by (simp_all add: count_newlines_def u_def)
  ultimately show ?thesis
    by (simp add: compute_metrics_def example_diff Let_def exact_ops_def round_half_even_def)
qed

theorem percent_change_formula_witness:
  "u ''a\<newline>b\<newline>c'' \<noteq> [] \<and> u ''a\<newline>x\<newline>c\<newline>d'' \<noteq> []
   \<and> length (splitlines (u ''a\<newline>b\<newline>c'')) = 3
   \<and> percent_change (compute_metrics exact_ops (u ''old'') (u ''new'')
        (u ''a\<newline>b\<newline>c'') (u ''a\<newline>x\<newline>c\<newline>d'')) = 100
   \<and> feature_4_analysis exact_ops (\<lambda>c. False) (answers_from 0) (u ''old'') (u ''new'')
        [] (u ''a\<newline>x\<newline>c\<newline>d'') [] (no_session, new_world)
      = (Skipped, no_session, new_world)
   \<and> (\<exists>st'. feature_4_analysis exact_ops (\<lambda>c. False) (answers_from 0) (u ''old'') (u ''new'')
              (u ''a\<newline>b\<newline>c'') (u ''a\<newline>x\<newline>c\<newline>d'') [] (no_session, new_world)
            = (Completed \<lparr> lines_added = 2, lines_removed = 1, percent_change = 100,
                 code_blocks_changed = 0 \<rparr>, st')
          \<or> feature_4_analysis exact_ops (\<lambda>c. False) (answers_from 0) (u ''old'') (u ''new'')
              (u ''a\<newline>b\<newline>c'') (u ''a\<newline>x\<newline>c\<newline>d'') [] (no_session, new_world)
            = (Raised GenerationError \<lparr> lines_added = 2, lines_removed = 1,
                 percent_change = 100, code_blocks_changed = 0 \<rparr>, st'))"
proof -
  have ne: "u ''a\<newline>b\<newline>c'' \<noteq> [] \<and> u ''a\<newline>x\<newline>c\<newline>d'' \<noteq> []"
    by (simp add: u_def)
  have l: "length (splitlines (u ''a\<newline>b\<newline>c'')) = 3"
    by (simp add: splitlines_def u_def is_linebreak_def)
  from percent_change_formula [of exact_ops "u ''old''" "u ''new''" "u ''a\<newline>b\<newline>c''"
      "u ''a\<newline>x\<newline>c\<newline>d''" "\<lambda>c. False" "answers_from 0" "[]" "(no_session, new_world)"]
    ne
  have "\<exists>st'. feature_4_analysis exact_ops (\<lambda>c. False) (answers_from 0) (u ''old'') (u ''new'')
              (u ''a\<newline>b\<newline>c'') (u ''a\<newline>x\<newline>c\<newline>d'') [] (no_session, new_world)
            = (Completed (compute_metrics exact_ops (u ''old'') (u ''new'')
                (u ''a\<newline>b\<newline>c'') (u ''a\<newline>x\<newline>c\<newline>d'')), st')
          \<or> feature_4_analysis exact_ops (\<lambda>c. False) (answers_from 0) (u ''old'') (u ''new'')
              (u ''a\<newline>b\<newline>c'') (u ''a\<newline>x\<newline>c\<newline>d'') [] (no_session, new_world)
            = (Raised GenerationError (compute_metrics exact_ops (u ''old'') (u ''new'')
                (u ''a\<newline>b\<newline>c'') (u ''a\<newline>x\<newline>c\<newline>d'')), st')"
    by blast
  moreover have "feature_4_analysis exact_ops (\<lambda>c. False) (answers_from 0) (u ''old'') (u ''new'')
        [] (u ''a\<newline>x\<newline>c\<newline>d'') [] (no_session, new_world)
      = (Skipped, no_session, new_world)"
    using percent_change_formula [of exact_ops "u ''old''" "u ''new''" "[]"
      "u ''a\<newline>x\<newline>c\<newline>d''" "\<lambda>c. False" "answers_from 0" "[]" "(no_session, new_world)"]
    by simp
  ultimately show ?thesis using ne l by (simp add: example_metrics)
qed

text \<open>
  Claim C1 as the specification words it gives, for an empty old text and a new text
  of three lines, 3 added lines and 300.0 percent. The formula would give that, but the
  run on these two texts is skipped: no metrics are computed.
\<close>

theorem empty_old_text_has_no_metrics:
  "feature_4_analysis exact_ops (\<lambda>c. False) (answers_from 0) (u ''old'') (u ''new'')
     [] (u ''a\<newline>b\<newline>c'') [] (no_session, new_world) = (Skipped, no_session, new_world)"
  by (simp add: feature_4_analysis_def)

text \<open>
  Claim C5, as the code has it. The block figure is taken from the numbers of line feed
  characters of the two texts, \<^verbatim>\<open>old_code.count('\n')\<close> and \<^verbatim>\<open>new_code.count('\n')\<close>, not
  from their numbers of lines. In a text whose only line boundaries are line feeds, the
  number of lines is the number of line feeds when the text ends in one (or is empty),
  and one more otherwise.
\<close>

theorem blocks_changed_counts_line_feeds:
  "code_blocks_changed (compute_metrics ops t1 t2 old_code new_code)
     = nat \<bar>int (count_newlines old_code div 5) - int (count_newlines new_code div 5)\<bar>
   \<and> (list_all (\<lambda>c. is_linebreak c \<longrightarrow> c = 10) text \<longrightarrow>
        length (splitlines text)
          = count_newlines text + (if text = [] \<or> last text = 10 then 0 else 1))"
proof -
  have "length (splitlines text)
          = count_newlines text + (if text = [] \<or> last text = 10 then 0 else 1)"
    if "list_all (\<lambda>c. is_linebreak c \<longrightarrow> c = 10) text"
    using splitlines_from_count [OF that, of "[]"] by (auto simp: splitlines_def)
  then show ?thesis by (simp add: compute_metrics_def Let_def)
qed

theorem blocks_changed_counts_line_feeds_witness:
  "list_all (\<lambda>c. is_linebreak c \<longrightarrow> c = 10) (u ''1\<newline>2\<newline>3\<newline>4\<newline>5'')
   \<and> count_newlines (u ''1\<newline>2\<newline>3\<newline>4\<newline>5'') = 4
   \<and> length (splitlines (u ''1\<newline>2\<newline>3\<newline>4\<newline>5'')) = 5
   \<and> code_blocks_changed (compute_metrics exact_ops (u ''old'') (u ''new'')
        (u ''1\<newline>2\<newline>3\<newline>4\<newline>5'') (u ''1\<newline>2\<newline>3\<newline>4\<newline>5\<newline>'')) = 1"
proof -
  have a: "list_all (\<lambda>c. is_linebreak c \<longrightarrow> c = 10) (u ''1\<newline>2\<newline>3\<newline>4\<newline>5'')"
    by (simp add: u_def is_linebreak_def)
  have c: "count_newlines (u ''1\<newline>2\<newline>3\<newline>4\<newline>5'') = 4"
    "count_newlines (u ''1\<newline>2\<newline>3\<newline>4\<newline>5\<newline>'') = 5"
    by (simp_all add: count_newlines_def u_def)
  have n: "u ''1\<newline>2\<newline>3\<newline>4\<newline>5'' \<noteq> []" "last (u ''1\<newline>2\<newline>3\<newline>4\<newline>5'') \<noteq> 10"
    by (simp_all add: u_def)
  from blocks_changed_counts_line_feeds [of exact_ops "u ''old''" "u ''new''"
      "u ''1\<newline>2\<newline>3\<newline>4\<newline>5''" "u ''1\<newline>2\<newline>3\<newline>4\<newline>5\<newline>''" "u ''1\<newline>2\<newline>3\<newline>4\<newline>5''"] a c n
  show ?thesis by simp
qed

text \<open>
  Claim C5 as the specification words it takes the numbers of lines. An old text of
  five lines that does not end in a line feed and a new text of one line give
  \<open>\<bar>5 div 5 - 1 div 5\<bar> = 1\<close> by lines, and 0 in the code.
\<close>

theorem five_lines_against_one_line:
  "length (splitlines (u ''1\<newline>2\<newline>3\<newline>4\<newline>5'')) = 5
   \<and> length (splitlines (u ''x'')) = 1
   \<and> nat \<bar>int (length (splitlines (u ''1\<newline>2\<newline>3\<newline>4\<newline>5'')) div 5)
          - int (length (splitlines (u ''x'')) div 5)\<bar> = 1
   \<and> code_blocks_changed (compute_metrics exact_ops (u ''old'') (u ''new'')
        (u ''1\<newline>2\<newline>3\<newline>4\<newline>5'') (u ''x'')) = 0"
proof -
  have "splitlines (u ''1\<newline>2\<newline>3\<newline>4\<newline>5'') = [u ''1'', u ''2'', u ''3'', u ''4'', u ''5'']"
    "splitlines (u ''x'') = [u ''x'']"
    by (simp_all add: splitlines_def u_def is_linebreak_def)
  moreover have "count_newlines (u ''1\<newline>2\<newline>3\<newline>4\<newline>5'') = 4" "count_newlines (u ''x'') = 0"
    by (simp_all add: count_newlines_def u_def)
  ultimately show ?thesis by (simp add: compute_metrics_def Let_def)
qed

section \<open>What the two counts count\<close>

lemma splitlines_from_one_line:
  "one_line cur \<Longrightarrow> \<forall>l\<in>set (splitlines_from cur s). one_line l"
proof (induction cur s rule: splitlines_from.induct)
  case (1 cur)
  then show ?case by simp
next
  case (2 cur c cs)
  then show ?case by (auto simp: one_line_def)
qed

lemma splitlines_one_line: "l \<in> set (splitlines s) \<Longrightarrow> one_line l"
  using splitlines_from_one_line [of "[]" s] by (simp add: splitlines_def one_line_def)

lemma splitlines_from_append:
  "one_line l \<Longrightarrow> splitlines_from cur (l @ rest) = splitlines_from (cur @ l) rest"
proof (induction l arbitrary: cur)
  case Nil
  show ?case by simp
next
  case (Cons c l)
  then have "\<not> is_linebreak c" "one_line l" by (simp_all add: one_line_def)
  moreover from this have "c \<noteq> 13" by (auto simp: is_linebreak_def)
  ultimately show ?case using Cons.IH [of "cur @ [c]"] by simp
qed

lemma splitlines_from_join:
  "\<forall>l\<in>set (l0 # ls). one_line l \<Longrightarrow> \<forall>l\<in>set ls. l \<noteq> [] \<Longrightarrow> cur @ l0 \<noteq> [] \<Longrightarrow>
   splitlines_from cur (join [10] (l0 # ls)) = (cur @ l0) # ls"
proof (induction ls arbitrary: cur l0)
  case Nil
  then show ?case using splitlines_from_append [of l0 cur "[]"] by simp
next
  case (Cons l1 ls)
  have "splitlines_from cur (join [10] (l0 # l1 # ls))
      = splitlines_from (cur @ l0) (10 # join [10] (l1 # ls))"
    using Cons.prems(1) splitlines_from_append [of l0 cur "10 # join [10] (l1 # ls)"] by simp
  also have "\<dots> = (cur @ l0) # splitlines_from [] (join [10] (l1 # ls))"
    by (simp add: is_linebreak_def)
  also have "splitlines_from [] (join [10] (l1 # ls)) = ([] @ l1) # ls"
    using Cons.prems by (intro Cons.IH) simp_all
  finally show ?case by simp
qed

lemma splitlines_join:
  "\<forall>l\<in>set ls. one_line l \<and> l \<noteq> [] \<Longrightarrow> splitlines (join [10] ls) = ls"
proof (cases ls)
  case Nil
  then show ?thesis by (simp add: splitlines_def)
next
  case (Cons l0 ls')
  assume "\<forall>l\<in>set ls. one_line l \<and> l \<noteq> []"
  with Cons show ?thesis
    using splitlines_from_join [of l0 ls' "[]"] by (simp add: splitlines_def)
qed

lemma str_of_nat_digits: "\<forall>c\<in>set (str_of_nat n). 48 \<le> c \<and> c \<le> 57"
proof (induction n rule: str_of_nat.induct)
  case (1 n)
  show ?case
  proof (cases "n < 10")
    case True
    then show ?thesis by (subst str_of_nat.simps) simp
  next
    case False
    have "n mod 10 < 10" by simp
    then have "48 + n mod 10 \<le> 57" by linarith
    with False 1 show ?thesis by (subst str_of_nat.simps) simp
  qed
qed

lemma one_line_str_of_nat: "one_line (str_of_nat n)"
  using str_of_nat_digits [of n] by (auto simp: one_line_def list_all_iff is_linebreak_def)

lemma one_line_append: "one_line (xs @ ys) \<longleftrightarrow> one_line xs \<and> one_line ys"
  by (simp add: one_line_def)

lemma one_line_format_range: "one_line (format_range_unified start stop)"
  by (simp add: format_range_unified_def Let_def one_line_append one_line_str_of_nat)
     (simp add: one_line_def u_def is_linebreak_def)

lemma set_slice: "set (slice xs lo hi) \<subseteq> set xs"
  by (auto simp: slice_def dest: in_set_takeD in_set_dropD)

lemma opcode_lines_one_line:
  assumes "\<forall>l\<in>set a. one_line l" "\<forall>l\<in>set b. one_line l"
  shows "\<forall>l\<in>set (opcode_lines a b c). one_line l \<and> l \<noteq> []"
proof -
  obtain tag i1 i2 j1 j2 where c: "c = (tag, i1, i2, j1, j2)" by (cases c) auto
  have "one_line l" if "l \<in> set (slice a i1 i2) \<or> l \<in> set (slice b j1 j2)" for l
    using that assms set_slice [of a i1 i2] set_slice [of b j1 j2] by auto
  then show ?thesis
    by (auto simp: c one_line_def u_def is_linebreak_def)
qed

lemma hunk_lines_one_line:
  assumes "\<forall>l\<in>set a. one_line l" "\<forall>l\<in>set b. one_line l"
  shows "\<forall>l\<in>set (hunk_lines a b grp). one_line l \<and> l \<noteq> []"
proof -
  have h: "one_line (u ''@@ -'' @ format_range_unified f1 l2 @ u '' +''
      @ format_range_unified f3 l4 @ u '' @@'')" for f1 l2 f3 l4
    by (simp add: one_line_append one_line_format_range)
       (simp add: one_line_def u_def is_linebreak_def)
  have n: "u ''@@ -'' \<noteq> []" by (simp add: u_def)
  show ?thesis
  proof
    fix l
    assume "l \<in> set (hunk_lines a b grp)"
    then consider f1 l2 f3 l4 where "l = u ''@@ -'' @ format_range_unified f1 l2 @ u '' +''
        @ format_range_unified f3 l4 @ u '' @@''"
      | c where "l \<in> set (opcode_lines a b c)"
      by (auto simp: hunk_lines_def simp del: opcode_lines.simps split: prod.splits)
    then show "one_line l \<and> l \<noteq> []"
    proof cases
      case 1
      then show ?thesis using h n by simp
    next
      case 2
      then show ?thesis using opcode_lines_one_line [OF assms] by blast
    qed
  qed
qed

lemma unified_diff_one_line:
  assumes "\<forall>l\<in>set a. one_line l" "\<forall>l\<in>set b. one_line l" "one_line t1" "one_line t2"
  shows "\<forall>l\<in>set (unified_diff a b t1 t2). one_line l \<and> l \<noteq> []"
proof -
  have "one_line (u ''--- '' @ t1)" "one_line (u ''+++ '' @ t2)"
    using assms(3,4) by (simp_all add: one_line_def u_def is_linebreak_def)
  moreover have "u ''--- '' @ t1 \<noteq> []" "u ''+++ '' @ t2 \<noteq> []" by (simp_all add: u_def)
  ultimately show ?thesis
    using hunk_lines_one_line [OF assms(1,2)]
    by (auto simp: unified_diff_def split: list.splits)
qed

lemma count_concat:
  "(\<And>x. x \<in> set xs \<Longrightarrow> length (filter P (f x)) = length (filter Q (g x))) \<Longrightarrow>
   length (filter P (concat (map f xs))) = length (filter Q (concat (map g xs)))"
  by (induction xs) simp_all

lemma concat_map_concat:
  "concat (map f (concat xss)) = concat (map (\<lambda>xs. concat (map f xs)) xss)"
  by (induction xss) simp_all

lemma is_added_prefix:
  "is_added (u ''+'' @ l) = (\<not> startswith l (u ''++''))"
  "is_added (u ''-'' @ l) = False" "is_added (u '' '' @ l) = False"
  "is_added (u ''@@ -'' @ l) = False" "is_added (u ''--- '' @ l) = False"
  "is_added (u ''+++ '' @ l) = False"
  by (simp_all add: is_added_def u_def)

lemma is_removed_prefix:
  "is_removed (u ''-'' @ l) = (\<not> startswith l (u ''--''))"
  "is_removed (u ''+'' @ l) = False" "is_removed (u '' '' @ l) = False"
  "is_removed (u ''@@ -'' @ l) = False" "is_removed (u ''--- '' @ l) = False"
  "is_removed (u ''+++ '' @ l) = False"
  by (simp_all add: is_removed_def u_def)

lemma opcode_lines_added:
  "length (filter is_added (opcode_lines a b c))
     = length (filter (\<lambda>l. \<not> startswith l (u ''++'')) (opcode_added b c))"
proof -
  obtain tag i1 i2 j1 j2 where c: "c = (tag, i1, i2, j1, j2)" by (cases c) auto
  show ?thesis
    by (simp add: c filter_map o_def is_added_prefix)
qed

lemma opcode_lines_removed:
  "length (filter is_removed (opcode_lines a b c))
     = length (filter (\<lambda>l. \<not> startswith l (u ''--'')) (opcode_removed a c))"
proof -
  obtain tag i1 i2 j1 j2 where c: "c = (tag, i1, i2, j1, j2)" by (cases c) auto
  show ?thesis
    by (simp add: c filter_map o_def is_removed_prefix)
qed

lemma hunk_lines_added:
  "length (filter is_added (hunk_lines a b grp))
     = length (filter (\<lambda>l. \<not> startswith l (u ''++'')) (concat (map (opcode_added b) grp)))"
proof -
  have "length (filter is_added (concat (map (opcode_lines a b) grp)))
     = length (filter (\<lambda>l. \<not> startswith l (u ''++'')) (concat (map (opcode_added b) grp)))"
    by (rule count_concat) (rule opcode_lines_added)
  then show ?thesis
    by (simp add: hunk_lines_def is_added_prefix split: prod.splits)
qed

lemma hunk_lines_removed:
  "length (filter is_removed (hunk_lines a b grp))
     = length (filter (\<lambda>l. \<not> startswith l (u ''--'')) (concat (map (opcode_removed a) grp)))"
proof -
  have "length (filter is_removed (concat (map (opcode_lines a b) grp)))
     = length (filter (\<lambda>l. \<not> startswith l (u ''--'')) (concat (map (opcode_removed a) grp)))"
    by (rule count_concat) (rule opcode_lines_removed)
  then show ?thesis
    by (simp add: hunk_lines_def is_removed_prefix split: prod.splits)
qed

lemma unified_diff_added:
  "length (filter is_added (unified_diff a b t1 t2))
     = length (filter (\<lambda>l. \<not> startswith l (u ''++'')) (added_lines a b))"
proof -
  have "length (filter is_added (concat (map (hunk_lines a b) (get_grouped_opcodes 3 a b))))
     = length (filter (\<lambda>l. \<not> startswith l (u ''++'')) (added_lines a b))"
    unfolding added_lines_def concat_map_concat
    by (rule count_concat) (rule hunk_lines_added)
  then show ?thesis
    by (cases "get_grouped_opcodes 3 a b")
       (simp_all add: unified_diff_def added_lines_def is_added_prefix)
qed

lemma unified_diff_removed:
  "length (filter is_removed (unified_diff a b t1 t2))
     = length (filter (\<lambda>l. \<not> startswith l (u ''--'')) (removed_lines a b))"
proof -
  have "length (filter is_removed (concat (map (hunk_lines a b) (get_grouped_opcodes 3 a b))))
     = length (filter (\<lambda>l. \<not> startswith l (u ''--'')) (removed_lines a b))"
    unfolding removed_lines_def concat_map_concat
    by (rule count_concat) (rule hunk_lines_removed)
  then show ?thesis
    by (cases "get_grouped_opcodes 3 a b")
       (simp_all add: unified_diff_def removed_lines_def is_removed_prefix)
qed

text \<open>
  With page titles that hold no line boundary, the count of added lines is the number
  of added lines of the edit script that do not start with \<^verbatim>\<open>++\<close>, and the count of
  removed lines the number of removed lines that do not start with \<^verbatim>\<open>--\<close>: header and
  hunk lines are never counted, and a line of content is missed exactly when it starts
  with these two characters.
\<close>

lemma counts_of_the_edit_script:
  assumes "one_line old_page_title" "one_line new_page_title"
  shows "count_added (full_diff_text old_page_title new_page_title old_code new_code)
      = length (filter (\<lambda>l. \<not> startswith l (u ''++''))
          (added_lines (splitlines old_code) (splitlines new_code)))"
    and "count_removed (full_diff_text old_page_title new_page_title old_code new_code)
      = length (filter (\<lambda>l. \<not> startswith l (u ''--''))
          (removed_lines (splitlines old_code) (splitlines new_code)))"
proof -
  let ?d = "unified_diff (splitlines old_code) (splitlines new_code)
      old_page_title new_page_title"
  have "\<forall>l\<in>set ?d. one_line l \<and> l \<noteq> []"
    by (rule unified_diff_one_line) (simp_all add: splitlines_one_line assms)
  then have s: "splitlines (join [10] ?d) = ?d" by (rule splitlines_join)
  have n: "u ''\<newline>'' = [10]" by (simp add: u_def)
  show "count_added (full_diff_text old_page_title new_page_title old_code new_code)
      = length (filter (\<lambda>l. \<not> startswith l (u ''++''))
          (added_lines (splitlines old_code) (splitlines new_code)))"
    using unified_diff_added [of "splitlines old_code" "splitlines new_code"
        old_page_title new_page_title]
    by (simp add: count_added_def full_diff_text_def n s is_added_def [abs_def])
  show "count_removed (full_diff_text old_page_title new_page_title old_code new_code)
      = length (filter (\<lambda>l. \<not> startswith l (u ''--''))
          (removed_lines (splitlines old_code) (splitlines new_code)))"
    using unified_diff_removed [of "splitlines old_code" "splitlines new_code"
        old_page_title new_page_title]
    by (simp add: count_removed_def full_diff_text_def n s is_removed_def [abs_def])
qed

text \<open>
  Claim C2 asks that every added or removed line of content is counted. The counts skip
  every line of the diff text that starts with \<^verbatim>\<open>+++\<close> or \<^verbatim>\<open>---\<close>, which is meant for the
  two header lines; an added line of content that starts with \<^verbatim>\<open>++\<close> and a removed one
  that starts with \<^verbatim>\<open>--\<close> look the same in the diff text and are skipped too. Adding
  the line \<^verbatim>\<open>++b\<close> to the text \<^verbatim>\<open>a\<close> is one insertion in the edit script and counts as no
  added line; removing the line \<^verbatim>\<open>-- b\<close> is one deletion and counts as no removed line.
\<close>

theorem plus_plus_line_is_not_counted:
  "get_opcodes [u ''a''] [u ''a'', u ''++b''] = [(Equal, 0, 1, 0, 1), (Insert, 1, 1, 1, 2)]
   \<and> full_diff_text (u ''old'') (u ''new'') (u ''a'') (u ''a\<newline>++b'')
       = u ''--- old\<newline>+++ new\<newline>@@ -1 +1,2 @@\<newline> a\<newline>+++b''
   \<and> lines_added (compute_metrics exact_ops (u ''old'') (u ''new'') (u ''a'') (u ''a\<newline>++b'')) = 0
   \<and> get_opcodes [u ''a'', u ''-- b''] [u ''a''] = [(Equal, 0, 1, 0, 1), (Delete, 1, 2, 1, 1)]
   \<and> full_diff_text (u ''old'') (u ''new'') (u ''a\<newline>-- b'') (u ''a'')
       = u ''--- old\<newline>+++ new\<newline>@@ -1,2 +1 @@\<newline> a\<newline>--- b''
   \<and> lines_removed (compute_metrics exact_ops (u ''old'') (u ''new'') (u ''a\<newline>-- b'') (u ''a'')) = 0"
proof -
  have s: "splitlines (u ''a'') = [u ''a'']" "splitlines (u ''a\<newline>++b'') = [u ''a'', u ''++b'']"
    "splitlines (u ''a\<newline>-- b'') = [u ''a'', u ''-- b'']"
    by (simp_all add: splitlines_def u_def is_linebreak_def)
  have o: "get_opcodes [u ''a''] [u ''a'', u ''++b''] = [(Equal, 0, 1, 0, 1), (Insert, 1, 1, 1, 2)]"
    "get_opcodes [u ''a'', u ''-- b''] [u ''a''] = [(Equal, 0, 1, 0, 1), (Delete, 1, 2, 1, 1)]"
    by code_simp+
  have "unified_diff [u ''a''] [u ''a'', u ''++b''] (u ''old'') (u ''new'')
      = [u ''--- old'', u ''+++ new'', u ''@@ -1 +1,2 @@'', u '' a'', u ''+++b'']"
    "unified_diff [u ''a'', u ''-- b''] [u ''a''] (u ''old'') (u ''new'')
      = [u ''--- old'', u ''+++ new'', u ''@@ -1,2 +1 @@'', u '' a'', u ''--- b'']"
    by code_simp+
  with s have d: "full_diff_text (u ''old'') (u ''new'') (u ''a'') (u ''a\<newline>++b'')
       = u ''--- old\<newline>+++ new\<newline>@@ -1 +1,2 @@\<newline> a\<newline>+++b''"
    "full_diff_text (u ''old'') (u ''new'') (u ''a\<newline>-- b'') (u ''a'')
       = u ''--- old\<newline>+++ new\<newline>@@ -1,2 +1 @@\<newline> a\<newline>--- b''"
    by (simp_all add: full_diff_text_def u_def)
  have "count_added (u ''--- old\<newline>+++ new\<newline>@@ -1 +1,2 @@\<newline> a\<newline>+++b'') = 0"
    "count_removed (u ''--- old\<newline>+++ new\<newline>@@ -1,2 +1 @@\<newline> a\<newline>--- b'') = 0"
    by (simp_all add: count_added_def count_removed_def splitlines_def u_def is_linebreak_def)
  with o d show ?thesis by (simp add: compute_metrics_def Let_def)
qed

section \<open>The diff of a text against itself\<close>

lemma run_eq: "run xs i j = (if hit xs i j then run_before xs i j + 1 else 0)"
  by (cases i; cases j) (simp_all add: run_before_def)

lemma hit_iff:
  "i < length xs \<Longrightarrow> hit xs i j \<longleftrightarrow> j < length xs \<and> xs ! j = xs ! i \<and> \<not> popular xs (xs ! i)"
  by (auto simp: hit_def b2j_def indices_of_def)

lemma hit_diag:
  assumes "i < length xs" "hit xs i j"
  shows "hit xs i i" "hit xs j j" "j < length xs"
  using assms by (auto simp: hit_iff)

lemma run_le_col: "i < length xs \<Longrightarrow> j \<le> i \<Longrightarrow> run xs i j \<le> run xs j j"
proof (induction xs i j rule: run.induct)
  case (1 xs j)
  then show ?case by simp
next
  case (2 xs i)
  then show ?case using hit_diag(2) [of "Suc i" xs 0] by simp
next
  case (3 xs i j)
  show ?case
  proof (cases "hit xs (Suc i) (Suc j)")
    case True
    with 3 hit_diag(2) [of "Suc i" xs "Suc j"] show ?thesis by simp
  next
    case False
    then show ?thesis by simp
  qed
qed

lemma run_le_row: "i < length xs \<Longrightarrow> i \<le> j \<Longrightarrow> run xs i j \<le> run xs i i"
proof (induction xs i j rule: run.induct)
  case (1 xs j)
  then show ?case using hit_diag(1) [of 0 xs j] by simp
next
  case (2 xs i)
  then show ?case by simp
next
  case (3 xs i j)
  show ?case
  proof (cases "hit xs (Suc i) (Suc j)")
    case True
    with 3 hit_diag(1) [of "Suc i" xs "Suc j"] show ?thesis by simp
  next
    case False
    then show ?thesis by simp
  qed
qed

text \<open>What one row writes into the new dictionary does not depend on the best match.\<close>

lemma scan_row_val:
  "\<forall>j\<in>set js. blo \<le> j \<and> j < bhi \<Longrightarrow>
   val (fst (scan_row i blo bhi j2len js st)) j
     = (if j \<in> set js then j2lenget j2len j + 1 else val (fst st) j)"
proof (induction js arbitrary: st)
  case Nil
  then show ?case by simp
next
  case (Cons a js)
  obtain new bi bj bs where st: "st = (new, bi, bj, bs)" by (cases st) auto
  define st' where "st' = (if bs < j2lenget j2len a + 1
     then (new(a \<mapsto> j2lenget j2len a + 1), i + 1 - (j2lenget j2len a + 1),
           a + 1 - (j2lenget j2len a + 1), j2lenget j2len a + 1)
     else (new(a \<mapsto> j2lenget j2len a + 1), bi, bj, bs))"
  have step: "scan_row i blo bhi j2len (a # js) st = scan_row i blo bhi j2len js st'"
    using Cons.prems by (simp add: st st'_def Let_def)
  have "val (fst st') j = (if j = a then j2lenget j2len a + 1 else val (fst st) j)"
    by (simp add: st'_def st val_def)
  moreover have "val (fst (scan_row i blo bhi j2len js st')) j
     = (if j \<in> set js then j2lenget j2len j + 1 else val (fst st') j)"
    using Cons.prems by (intro Cons.IH) simp
  ultimately show ?case by (auto simp: step)
qed

text \<open>
  The invariant of the scan: the best match lies on the diagonal and is at least as
  long as every run that ends on a diagonal cell already visited.
\<close>

lemma scan_row_diag:
  assumes i: "i < length xs"
    and J: "\<And>j. j2lenget j2len j = run_before xs i j"
  shows "sorted_wrt (<) js \<Longrightarrow> set js \<subseteq> set (b2j xs (xs ! i)) \<Longrightarrow>
    fst (snd st) = fst (snd (snd st)) \<Longrightarrow>
    (\<forall>p<i. run xs p p \<le> snd (snd (snd st))) \<Longrightarrow>
    i \<in> set js \<or> run xs i i \<le> snd (snd (snd st)) \<Longrightarrow>
    (case scan_row i 0 (length xs) j2len js st of (new', bi', bj', bs') \<Rightarrow>
       bi' = bj' \<and> (\<forall>p<Suc i. run xs p p \<le> bs'))"
proof (induction js arbitrary: st)
  case Nil
  obtain new bi bj bs where st: "st = (new, bi, bj, bs)" by (cases st) auto
  from Nil show ?case by (auto simp: st less_Suc_eq)
next
  case (Cons j js)
  obtain new bi bj bs where st: "st = (new, bi, bj, bs)" by (cases st) auto
  from Cons.prems(2) have hj: "hit xs i j" by (simp add: hit_def)
  with i have jn: "j < length xs" by (simp add: hit_iff)
  let ?k = "j2lenget j2len j + 1"
  have k: "?k = run xs i j" using hj by (simp add: run_eq J)
  from Cons.prems(1) have sorted: "sorted_wrt (<) js" and above: "\<forall>j'\<in>set js. j < j'" by auto
  from Cons.prems(2) have sub: "set js \<subseteq> set (b2j xs (xs ! i))" by simp
  from Cons.prems(3) have diag: "bi = bj" by (simp add: st)
  from Cons.prems(4) have old: "\<forall>p<i. run xs p p \<le> bs" by (simp add: st)
  from Cons.prems(5) have here: "i = j \<or> i \<in> set js \<or> run xs i i \<le> bs" by (auto simp: st)
  show ?case
  proof (cases "bs < ?k")
    case True
    have "j = i"
    proof (rule ccontr)
      assume ne: "j \<noteq> i"
      show False
      proof (cases "j < i")
        case True
        then have "run xs i j \<le> run xs j j" by (intro run_le_col i) simp
        also have "\<dots> \<le> bs" using old True by simp
        finally show False using \<open>bs < ?k\<close> k by simp
      next
        case False
        with ne have lt: "i < j" by simp
        with above have "i \<notin> set js" by auto
        with here ne have "run xs i i \<le> bs" by auto
        moreover have "run xs i j \<le> run xs i i" using lt by (intro run_le_row i) simp
        ultimately show False using \<open>bs < ?k\<close> k by simp
      qed
    qed
    define st' where "st' = (new(j \<mapsto> ?k), i + 1 - ?k, j + 1 - ?k, ?k)"
    have step: "scan_row i 0 (length xs) j2len (j # js) st = scan_row i 0 (length xs) j2len js st'"
      using True jn by (simp add: st st'_def Let_def)
    have "case scan_row i 0 (length xs) j2len js st' of (new', bi', bj', bs') \<Rightarrow>
       bi' = bj' \<and> (\<forall>p<Suc i. run xs p p \<le> bs')"
    proof (rule Cons.IH [OF sorted sub])
      show "fst (snd st') = fst (snd (snd st'))" by (simp add: st'_def \<open>j = i\<close>)
      show "\<forall>p<i. run xs p p \<le> snd (snd (snd st'))"
        using old True by (auto simp: st'_def)
      show "i \<in> set js \<or> run xs i i \<le> snd (snd (snd st'))"
        using k \<open>j = i\<close> by (simp add: st'_def)
    qed
    then show ?thesis by (simp add: step)
  next
    case False
    define st' where "st' = (new(j \<mapsto> ?k), bi, bj, bs)"
    have step: "scan_row i 0 (length xs) j2len (j # js) st = scan_row i 0 (length xs) j2len js st'"
      using False jn by (simp add: st st'_def Let_def)
    have "case scan_row i 0 (length xs) j2len js st' of (new', bi', bj', bs') \<Rightarrow>
       bi' = bj' \<and> (\<forall>p<Suc i. run xs p p \<le> bs')"
    proof (rule Cons.IH [OF sorted sub])
      show "fst (snd st') = fst (snd (snd st'))" by (simp add: st'_def diag)
      show "\<forall>p<i. run xs p p \<le> snd (snd (snd st'))"
        using old by (simp add: st'_def)
      show "i \<in> set js \<or> run xs i i \<le> snd (snd (snd st'))"
        using here False k by (auto simp: st'_def)
    qed
    then show ?thesis by (simp add: step)
  qed
qed

lemma sorted_b2j: "sorted_wrt (<) (b2j xs x)"
  by (simp add: b2j_def indices_of_def sorted_wrt_filter)

lemma b2j_bounds: "\<forall>j\<in>set (b2j xs x). 0 \<le> j \<and> j < length xs"
  by (auto simp: b2j_def indices_of_def)

lemma scan_rows_diag:
  "i0 \<le> length xs \<Longrightarrow> (\<And>j. j2lenget (fst st) j = run_before xs i0 j) \<Longrightarrow>
   fst (snd st) = fst (snd (snd st)) \<Longrightarrow> (\<forall>p<i0. run xs p p \<le> snd (snd (snd st))) \<Longrightarrow>
   (case snd (scan_rows xs xs 0 (length xs) [i0..<length xs] st) of (bi, bj, bs) \<Rightarrow> bi = bj)"
proof (induction "length xs - i0" arbitrary: i0 st)
  case 0
  then show ?case by (cases st) auto
next
  case (Suc n)
  then have lt: "i0 < length xs" by simp
  obtain j2len best where st: "st = (j2len, best)" by (cases st) auto
  let ?st' = "scan_row i0 0 (length xs) j2len (b2j xs (xs ! i0)) (Map.empty, best)"
  have J: "\<And>j. j2lenget j2len j = run_before xs i0 j" using Suc.prems(2) by (simp add: st)
  have inv: "case ?st' of (new', bi', bj', bs') \<Rightarrow>
       bi' = bj' \<and> (\<forall>p<Suc i0. run xs p p \<le> bs')"
  proof (rule scan_row_diag [OF lt J sorted_b2j])
    show "set (b2j xs (xs ! i0)) \<subseteq> set (b2j xs (xs ! i0))" by simp
    show "fst (snd (Map.empty, best)) = fst (snd (snd (Map.empty, best)))"
      using Suc.prems(3) by (simp add: st)
    show "\<forall>p<i0. run xs p p \<le> snd (snd (snd (Map.empty, best)))"
      using Suc.prems(4) by (simp add: st)
    show "i0 \<in> set (b2j xs (xs ! i0)) \<or> run xs i0 i0 \<le> snd (snd (snd (Map.empty, best)))"
    proof (cases "hit xs i0 i0")
      case True
      then show ?thesis by (simp add: hit_def)
    next
      case False
      then show ?thesis by (simp add: run_eq)
    qed
  qed
  have J': "j2lenget (fst ?st') j = run_before xs (Suc i0) j" for j
  proof (cases j)
    case 0
    then show ?thesis by (simp add: j2lenget_def run_before_def)
  next
    case (Suc j')
    have "val (fst ?st') j' = (if j' \<in> set (b2j xs (xs ! i0)) then j2lenget j2len j' + 1
        else val (fst (Map.empty :: nat \<rightharpoonup> nat, best)) j')"
      by (rule scan_row_val [OF b2j_bounds])
    then have "val (fst ?st') j' = run xs i0 j'"
      by (simp add: run_eq hit_def J val_def)
    then show ?thesis by (simp add: Suc j2lenget_def run_before_def val_def)
  qed
  have "case snd (scan_rows xs xs 0 (length xs) [Suc i0..<length xs] ?st') of
      (bi, bj, bs) \<Rightarrow> bi = bj"
  proof (rule Suc.hyps(1))
    show "n = length xs - Suc i0" using Suc.hyps(2) by simp
    show "Suc i0 \<le> length xs" using lt by simp
    show "\<And>j. j2lenget (fst ?st') j = run_before xs (Suc i0) j" by (rule J')
    show "fst (snd ?st') = fst (snd (snd ?st'))" using inv by (auto split: prod.splits)
    show "\<forall>p<Suc i0. run xs p p \<le> snd (snd (snd ?st'))" using inv by (auto split: prod.splits)
  qed
  then show ?case using lt by (simp add: upt_conv_Cons st)
qed

lemma extend_left_self: "extend_left xs xs 0 0 (i, i, k) = (0, 0, i + k)"
proof (induction i arbitrary: k)
  case 0
  show ?case by (subst extend_left.simps) simp
next
  case (Suc i)
  show ?case by (subst extend_left.simps) (simp add: Suc)
qed

lemma extend_right_self:
  "k \<le> length xs \<Longrightarrow> extend_right xs xs (length xs) (length xs) (0, 0, k) = (0, 0, length xs)"
proof (induction "length xs - k" arbitrary: k)
  case 0
  then show ?case by (subst extend_right.simps) simp
next
  case (Suc n)
  then have lt: "k < length xs" by arith
  with Suc have "extend_right xs xs (length xs) (length xs) (0, 0, Suc k) = (0, 0, length xs)"
    by (intro Suc.hyps(1)) simp_all
  with lt show ?case by (subst extend_right.simps) simp
qed

lemma find_longest_match_self:
  "find_longest_match xs xs 0 (length xs) 0 (length xs) = (0, 0, length xs)"
proof -
  let ?s = "snd (scan_rows xs xs 0 (length xs) [0..<length xs] (Map.empty, (0, 0, 0)))"
  obtain bi bj bs where s: "?s = (bi, bj, bs)" by (cases ?s) auto
  have "case ?s of (bi, bj, bs) \<Rightarrow> bi = bj"
    by (rule scan_rows_diag) (simp_all add: j2lenget_def run_before_def)
  with s have d: "bj = bi" by simp
  have "best_in 0 (length xs) ?s"
    by (rule scan_rows_bounds) (simp_all add: vals_le_def)
  with s have "bi + bs \<le> length xs" by (auto split: if_splits)
  then show ?thesis
    by (simp add: find_longest_match_def s d extend_left_self extend_right_self)
qed

lemma get_opcodes_self:
  fixes xs :: "'a list"
  shows "get_opcodes xs xs = (if xs = [] then [] else [(Equal, 0, length xs, 0, length xs)])"
proof (cases "xs = []")
  case True
  have "find_longest_match ([] :: 'a list) [] 0 0 0 0 = (0, 0, 0)"
    using find_longest_match_self [of "[] :: 'a list"] by simp
  then show ?thesis
    by (simp add: True get_opcodes_def get_matching_blocks_def)
next
  case False
  then show ?thesis
    by (simp add: get_opcodes_def get_matching_blocks_def find_longest_match_self)
qed

lemma get_grouped_opcodes_self: "get_grouped_opcodes 3 xs xs = []"
proof -
  have "\<not> 6 < length xs - (length xs - 3)" by arith
  then show ?thesis
    by (simp add: get_grouped_opcodes_def get_opcodes_self fix_first_def fix_last_def Let_def)
qed

text \<open>
  Claim C9. The diff of a list of lines against itself has no line at all, headers
  included, so the diff text is empty and both counts are 0, whatever the text and the
  two titles are.
\<close>

theorem identical_snapshots_empty_diff:
  "unified_diff (splitlines code) (splitlines code) old_page_title new_page_title = []
   \<and> full_diff_text old_page_title new_page_title code code = []
   \<and> lines_added (compute_metrics ops old_page_title new_page_title code code) = 0
   \<and> lines_removed (compute_metrics ops old_page_title new_page_title code code) = 0"
proof -
  have d: "unified_diff (splitlines code) (splitlines code) old_page_title new_page_title = []"
    by (simp add: unified_diff_def get_grouped_opcodes_self)
  then have t: "full_diff_text old_page_title new_page_title code code = []"
    by (simp add: full_diff_text_def)
  then show ?thesis using d
    by (simp add: compute_metrics_def Let_def count_added_def count_removed_def splitlines_def)
qed

theorem identical_snapshots_empty_diff_witness:
  "unified_diff (splitlines (u ''a\<newline>b'')) (splitlines (u ''a\<newline>b'')) (u ''old'') (u ''new'') = []
   \<and> lines_added (compute_metrics exact_ops (u ''old'') (u ''new'') (u ''a\<newline>b'') (u ''a\<newline>b'')) = 0
   \<and> lines_removed (compute_metrics exact_ops (u ''old'') (u ''new'') (u ''a\<newline>b'') (u ''a\<newline>b'')) = 0"
  using identical_snapshots_empty_diff [of "u ''a\<newline>b''" "u ''old''" "u ''new''" exact_ops]
  by simp

end
